theory Spec2Isabelle
  imports Complex_Main "HOL-Library.Multiset"
begin

section \<open>Data model of the scheduling simulator (Main.c)\<close>

text \<open>
  The C program computes with \<^verbatim>\<open>double\<close>. The embedding of the policies reads
  every \<^verbatim>\<open>double\<close> as an exact real number: additions, subtractions and
  comparisons are the mathematical ones. Where a property depends on how a sum is
  rounded, the consumption step is given a second time, in binary64 arithmetic, in a
  section of its own. The two constants of the program are kept under their own names.
\<close>

definition QUANTUM :: real where
  "QUANTUM = 1 / 2"

definition EPS :: real where
  "EPS = 1 / 1000000000"

record IOEvent =
  when_cpu :: real
  duration :: real

text \<open>
  A \<^verbatim>\<open>Process\<close> of the source carries the array \<^verbatim>\<open>io_events\<close> and its
  length \<^verbatim>\<open>io_count\<close>; the model keeps them as one list, whose length is
  \<open>io_count\<close>. The index \<^verbatim>\<open>next_io_index\<close> starts at 0 and is only ever
  incremented, so it is a natural number.
\<close>

record Process =
  name :: string
  total_cpu_needed :: real
  io_events :: "IOEvent list"
  remaining :: real
  cpu_consumed :: real
  blocked_time :: real
  first_run_time :: real
  finish_time :: real
  next_io_index :: nat

definition io_count :: "Process \<Rightarrow> nat" where
  "io_count p = length (io_events p)"

record Result =
  rname :: string
  Elapsed :: real
  CPU :: real
  BLOCKED :: real
  FirstRun :: real

section \<open>Utility functions\<close>

text \<open>\<^verbatim>\<open>clone_processes\<close>: copy every process and reset its runtime state.\<close>

definition clone_processes :: "Process list \<Rightarrow> Process list" where
  "clone_processes src =
     map (\<lambda>s. s\<lparr>remaining := total_cpu_needed s,
                 cpu_consumed := 0,
                 blocked_time := 0,
                 first_run_time := - 1,
                 finish_time := - 1,
                 next_io_index := 0\<rparr>) src"

text \<open>
  \<^verbatim>\<open>eat_cpu(p, dt, &taken, &io_dur)\<close>: the process is mutated in place and two
  values are written through pointers; the model returns the new process, \<open>taken\<close>
  and \<open>io_dur\<close> (\<open>- 1\<close> when no I/O event was triggered, as in the source).
\<close>

definition eat_cpu :: "Process \<Rightarrow> real \<Rightarrow> Process \<times> real \<times> real" where
  "eat_cpu p dt =
     (if next_io_index p < io_count p then
        (let ev = io_events p ! next_io_index p;
             cpu_until_io = when_cpu ev - cpu_consumed p
         in if cpu_until_io \<le> EPS then
              (p\<lparr>next_io_index := next_io_index p + 1,
                 blocked_time := blocked_time p + duration ev\<rparr>, 0, duration ev)
            else
              (let take = dt;
                   take = (if take > cpu_until_io then cpu_until_io else take);
                   take = (if take > remaining p then remaining p else take);
                   p1 = p\<lparr>cpu_consumed := cpu_consumed p + take,
                          remaining := remaining p - take\<rparr>
               in if \<bar>cpu_consumed p1 - when_cpu ev\<bar> < 1 / 1000000
                     \<or> cpu_consumed p1 > when_cpu ev - 1 / 1000000000 then
                    (p1\<lparr>next_io_index := next_io_index p1 + 1,
                        blocked_time := blocked_time p1 + duration ev\<rparr>, take, duration ev)
                  else (p1, take, - 1)))
      else
        (let take = dt;
             take = (if take > remaining p then remaining p else take)
         in (p\<lparr>cpu_consumed := cpu_consumed p + take,
                remaining := remaining p - take\<rparr>, take, - 1)))"

definition is_done :: "Process \<Rightarrow> bool" where
  "is_done p \<longleftrightarrow> remaining p \<le> EPS"

definition fill_result :: "Result \<Rightarrow> Process \<Rightarrow> Result" where
  "fill_result r p =
     r\<lparr>Elapsed := (if finish_time p < 0 then 0 else finish_time p),
       CPU := cpu_consumed p,
       BLOCKED := blocked_time p,
       FirstRun := (if first_run_time p < 0 then 0 else first_run_time p)\<rparr>"

text \<open>
  The result array is allocated without initialisation and filled from index 0 upwards:
  \<^verbatim>\<open>fill_result(&res[idx++], p); strcpy(res[idx-1].name, p->name);\<close>.
  The model keeps the filled prefix as a list. A fresh slot is \<open>blank_result\<close>; each
  of its fields is overwritten before anything reads it.
\<close>

definition blank_result :: Result where
  "blank_result = \<lparr>rname = [], Elapsed = 0, CPU = 0, BLOCKED = 0, FirstRun = 0\<rparr>"

definition store_result :: "Result list \<Rightarrow> Process \<Rightarrow> Result list" where
  "store_result res p = res @ [(fill_result blank_result p)\<lparr>rname := name p\<rparr>]"

section \<open>Scenarios\<close>

text \<open>
  The scenario constructors set the name, the demand and the I/O events of each process
  and leave the runtime fields uninitialised; every policy clones the processes before
  it reads a runtime field. \<open>new_process\<close> fills the runtime fields with 0.
\<close>

definition new_process :: "string \<Rightarrow> real \<Rightarrow> IOEvent list \<Rightarrow> Process" where
  "new_process nm need evs =
     \<lparr>name = nm, total_cpu_needed = need, io_events = evs,
      remaining = 0, cpu_consumed = 0, blocked_time = 0,
      first_run_time = 0, finish_time = 0, next_io_index = 0\<rparr>"

definition io :: "real \<Rightarrow> real \<Rightarrow> IOEvent" where
  "io w d = \<lparr>when_cpu = w, duration = d\<rparr>"

definition make_scenario1 :: "Process list" where
  "make_scenario1 =
     [new_process ''A'' 10 [], new_process ''B'' 15 [], new_process ''C'' 20 []]"

definition make_scenario2 :: "Process list" where
  "make_scenario2 =
     [new_process ''A'' 5 [], new_process ''B'' 10 [], new_process ''C'' 4 [],
      new_process ''D'' 2 [], new_process ''E'' 3 [], new_process ''F'' 15 []]"

definition make_scenario3 :: "Process list" where
  "make_scenario3 =
     [new_process ''A'' 5 [io 1 (5 / 10), io 3 (7 / 10)],
      new_process ''B'' 5 [io 2 (4 / 10)],
      new_process ''C'' 5 [io (5 / 10) (2 / 10), io (25 / 10) 1]]"

definition make_scenario4 :: "Process list" where
  "make_scenario4 =
     [new_process ''A'' 6 [io (12 / 10) (6 / 10), io 4 (8 / 10)],
      new_process ''B'' 6 [io (35 / 10) (5 / 10)],
      new_process ''C'' 6 [io (8 / 10) (3 / 10), io 2 (4 / 10), io (45 / 10) (6 / 10)]]"

text \<open>\<^verbatim>\<open>make_scenario\<close>: \<open>None\<close> is the \<^verbatim>\<open>NULL\<close> of the source.\<close>

definition make_scenario :: "int \<Rightarrow> Process list option" where
  "make_scenario scen =
     (if scen = 1 then Some make_scenario1
      else if scen = 2 then Some make_scenario2
      else if scen = 3 then Some make_scenario3
      else if scen = 4 then Some make_scenario4
      else None)"

section \<open>FIFO\<close>

text \<open>
  The inner loop of \<^verbatim>\<open>run_fifo\<close>:
  \<^verbatim>\<open>while (!is_done(p)) { eat_cpu(p, p->remaining, ...); t += taken; if (io_dur >= 0.0) t += io_dur; }\<close>
\<close>

function fifo_while :: "Process \<Rightarrow> real \<Rightarrow> Process \<times> real" where
  "fifo_while p t =
     (if \<not> is_done p then
        (case eat_cpu p (remaining p) of
           (p', taken, io_dur) \<Rightarrow>
             fifo_while p' (if io_dur \<ge> 0 then t + taken + io_dur else t + taken))
      else (p, t))"
  by pat_completeness auto

text \<open>The body of the \<^verbatim>\<open>for\<close> loop of \<^verbatim>\<open>run_fifo\<close>, over the cloned array.\<close>

fun fifo_for :: "Process list \<Rightarrow> real \<Rightarrow> Result list \<Rightarrow> Result list" where
  "fifo_for [] t res = res"
| "fifo_for (p # ps) t res =
     (let p1 = (if first_run_time p < 0 then p\<lparr>first_run_time := t\<rparr> else p);
          (p2, t2) = fifo_while p1 t;
          p3 = p2\<lparr>finish_time := t2\<rparr>
      in fifo_for ps t2 (store_result res p3))"

definition run_fifo :: "Process list \<Rightarrow> Result list" where
  "run_fifo orig = fifo_for (clone_processes orig) 0 []"

section \<open>Non-preemptive SJF\<close>

definition cmp_total_cpu :: "Process \<Rightarrow> Process \<Rightarrow> int" where
  "cmp_total_cpu pa pb =
     (if total_cpu_needed pa < total_cpu_needed pb then - 1
      else if total_cpu_needed pa > total_cpu_needed pb then 1
      else 0)"

text \<open>
  \<^verbatim>\<open>run_sjf\<close> repeats the loops of \<^verbatim>\<open>run_fifo\<close> in its own body; the model
  repeats them too, under their own names.
\<close>

function sjf_while :: "Process \<Rightarrow> real \<Rightarrow> Process \<times> real" where
  "sjf_while p t =
     (if \<not> is_done p then
        (case eat_cpu p (remaining p) of
           (p', taken, io_dur) \<Rightarrow>
             sjf_while p' (if io_dur \<ge> 0 then t + taken + io_dur else t + taken))
      else (p, t))"
  by pat_completeness auto

fun sjf_for :: "Process list \<Rightarrow> real \<Rightarrow> Result list \<Rightarrow> Result list" where
  "sjf_for [] t res = res"
| "sjf_for (p # ps) t res =
     (let p1 = (if first_run_time p < 0 then p\<lparr>first_run_time := t\<rparr> else p);
          (p2, t2) = sjf_while p1 t;
          p3 = p2\<lparr>finish_time := t2\<rparr>
      in sjf_for ps t2 (store_result res p3))"

text \<open>
  The processes are ordered by the C library: \<^verbatim>\<open>qsort(procs, n, sizeof(Process), cmp_total_cpu)\<close>.
  The library is not part of the program, so the sorting function is a parameter of
  \<open>run_sjf\<close>. What the C standard promises of it, for the array it is given, is
  \<open>qsort_result\<close>: the outcome is a rearrangement of the array in which no element
  compares greater than a later one. The order of elements that compare equal is left
  open by the standard.
\<close>

type_synonym qsort_fn = "(Process \<Rightarrow> Process \<Rightarrow> int) \<Rightarrow> Process list \<Rightarrow> Process list"

definition qsort_result :: "(Process \<Rightarrow> Process \<Rightarrow> int) \<Rightarrow> Process list \<Rightarrow> Process list \<Rightarrow> bool" where
  "qsort_result cmp xs ys \<longleftrightarrow> mset ys = mset xs \<and> sorted_wrt (\<lambda>a b. cmp a b \<le> 0) ys"

definition run_sjf :: "qsort_fn \<Rightarrow> Process list \<Rightarrow> Result list" where
  "run_sjf qsort orig = sjf_for (qsort cmp_total_cpu (clone_processes orig)) 0 []"

text \<open>
  Modelled from the spec: the order in which \<^verbatim>\<open>qsort\<close> leaves the array. The
  code of \<^verbatim>\<open>qsort\<close> belongs to the C library and is not in the repository, and
  \<open>cmp_total_cpu\<close> returns 0 for two processes of equal demand, so the source does not fix
  their order. The specification of the simulator does: under SJF the processes are
  sorted ascending by \<open>total_cpu_needed\<close>, ties broken by original definition order, a
  stable sort. \<open>insert_before\<close> puts an element before the first one that it does not
  compare greater than, so that elements which compare equal keep their order.
\<close>

fun insert_before :: "('a \<Rightarrow> 'a \<Rightarrow> int) \<Rightarrow> 'a \<Rightarrow> 'a list \<Rightarrow> 'a list" where
  "insert_before cmp x [] = [x]"
| "insert_before cmp x (y # ys) =
     (if cmp x y \<le> 0 then x # y # ys else y # insert_before cmp x ys)"

text \<open>
  Modelled from the spec: the stable sort that the specification has in the place of
  \<^verbatim>\<open>qsort\<close>, whose code is not in the repository: the insertion sort by
  \<open>insert_before\<close>.
\<close>

definition stable_qsort :: "('a \<Rightarrow> 'a \<Rightarrow> int) \<Rightarrow> 'a list \<Rightarrow> 'a list" where
  "stable_qsort cmp xs = foldr (insert_before cmp) xs []"

section \<open>Round-Robin\<close>

text \<open>
  \<^verbatim>\<open>run_rr\<close> keeps its queue in an array of \<^verbatim>\<open>n * 2\<close> pointers with two
  indices \<^verbatim>\<open>qstart\<close> and \<^verbatim>\<open>qend\<close> that only grow. The model keeps the slots
  written so far as the list \<open>rr_queue\<close>, so that \<^verbatim>\<open>qend\<close> is its length, and
  the capacity of the array as \<open>cap\<close>. Each pointer of the queue refers to a process of
  its own, so the queue holds the processes themselves. A write to
  \<^verbatim>\<open>queue[qend]\<close> with \<^verbatim>\<open>qend\<close> at the capacity is outside the allocated
  array: the behaviour of the C program is undefined from there on, and the model stops
  with the fault \<open>QueueOverflow\<close>.
\<close>

datatype fault = QueueOverflow

record rr_state =
  rr_queue :: "Process list"
  rr_qstart :: nat
  rr_t :: real
  rr_res :: "Result list"

text \<open>One iteration of \<^verbatim>\<open>while (qstart < qend)\<close>.\<close>

definition rr_body :: "nat \<Rightarrow> rr_state \<Rightarrow> fault + rr_state" where
  "rr_body cap s =
     (let p = rr_queue s ! rr_qstart s;
          p = (if first_run_time p < 0 then p\<lparr>first_run_time := rr_t s\<rparr> else p);
          (p, taken, io_dur) = eat_cpu p QUANTUM;
          t = rr_t s + taken;
          t = (if io_dur \<ge> 0 then t + io_dur else t)
      in if \<not> is_done p then
           (if length (rr_queue s) < cap then
              Inr (s\<lparr>rr_queue := rr_queue s @ [p], rr_qstart := rr_qstart s + 1, rr_t := t\<rparr>)
            else Inl QueueOverflow)
         else
           Inr (s\<lparr>rr_qstart := rr_qstart s + 1, rr_t := t,
                  rr_res := store_result (rr_res s) (p\<lparr>finish_time := t\<rparr>)\<rparr>))"

function rr_while :: "nat \<Rightarrow> rr_state \<Rightarrow> fault + rr_state" where
  "rr_while cap s =
     (if rr_qstart s < length (rr_queue s) then
        (case rr_body cap s of
           Inl e \<Rightarrow> Inl e
         | Inr s' \<Rightarrow> rr_while cap s')
      else Inr s)"
  by pat_completeness auto

definition rr_init :: "Process list \<Rightarrow> rr_state" where
  "rr_init orig = \<lparr>rr_queue = clone_processes orig, rr_qstart = 0, rr_t = 0, rr_res = []\<rparr>"

definition run_rr :: "Process list \<Rightarrow> fault + Result list" where
  "run_rr orig =
     (case rr_while (length orig * 2) (rr_init orig) of
        Inl e \<Rightarrow> Inl e
      | Inr s \<Rightarrow> Inr (rr_res s))"

section \<open>MLFQ\<close>

text \<open>
  \<^verbatim>\<open>run_mlfq\<close> keeps one array per level, removes the head by shifting the array
  left and appends at the end; an array that is full is doubled by \<^verbatim>\<open>realloc\<close>
  before the write, so an append never leaves the array. The model keeps each level as a
  list of the processes themselves.
\<close>

definition LEVELS :: nat where
  "LEVELS = 3"

record mlfq_state =
  queues :: "Process list list"
  mlfq_t :: real
  mlfq_res :: "Result list"

text \<open>
  \<^verbatim>\<open>for (int i = 0; i < LEVELS; ++i) if (qsize[i] > 0) { qidx = i; break; }\<close>;
  \<open>None\<close> is \<^verbatim>\<open>qidx == -1\<close>.
\<close>

fun first_nonempty :: "'a list list \<Rightarrow> nat \<Rightarrow> nat option" where
  "first_nonempty [] i = None"
| "first_nonempty (q # qs) i = (if q \<noteq> [] then Some i else first_nonempty qs (i + 1))"

text \<open>The level a process that is not done is put back into.\<close>

definition new_q :: "nat \<Rightarrow> real \<Rightarrow> nat" where
  "new_q qidx taken =
     (if \<bar>taken - QUANTUM\<bar> < 1 / 1000000000 \<or> taken > QUANTUM - 1 / 1000000000 then
        (if qidx < LEVELS - 1 then qidx + 1 else qidx)
      else qidx)"

text \<open>One iteration of the loop, for the level \<open>qidx\<close> found non-empty.\<close>

definition mlfq_body :: "mlfq_state \<Rightarrow> nat \<Rightarrow> mlfq_state" where
  "mlfq_body s qidx =
     (let p = hd (queues s ! qidx);
          qs = (queues s)[qidx := tl (queues s ! qidx)];
          p = (if first_run_time p < 0 then p\<lparr>first_run_time := mlfq_t s\<rparr> else p);
          (p, taken, io_dur) = eat_cpu p QUANTUM;
          t = mlfq_t s + taken;
          t = (if io_dur \<ge> 0 then t + io_dur else t)
      in if is_done p then
           s\<lparr>queues := qs, mlfq_t := t,
             mlfq_res := store_result (mlfq_res s) (p\<lparr>finish_time := t\<rparr>)\<rparr>
         else
           s\<lparr>queues := qs[new_q qidx taken := qs ! new_q qidx taken @ [p]], mlfq_t := t\<rparr>)"

function mlfq_while :: "mlfq_state \<Rightarrow> mlfq_state" where
  "mlfq_while s =
     (case first_nonempty (queues s) 0 of
        None \<Rightarrow> s
      | Some qidx \<Rightarrow> mlfq_while (mlfq_body s qidx))"
  by pat_completeness auto

definition mlfq_init :: "Process list \<Rightarrow> mlfq_state" where
  "mlfq_init orig =
     \<lparr>queues = (replicate LEVELS [])[0 := clone_processes orig], mlfq_t = 0, mlfq_res = []\<rparr>"

definition run_mlfq :: "Process list \<Rightarrow> Result list" where
  "run_mlfq orig = mlfq_res (mlfq_while (mlfq_init orig))"

section \<open>Command line\<close>

text \<open>
  \<^verbatim>\<open>main\<close> reads its numbers with the C library's \<^verbatim>\<open>atoi\<close>, which is a parameter
  of the model, as \<^verbatim>\<open>qsort\<close> is. \<open>argv\<close> is the whole argument vector, the program
  name first, and \<^verbatim>\<open>argc\<close> is its length. The outcome of a run is the exit code with
  the result arrays of the simulations that were run, or the fault of a simulation.
  The averaging and the printing that follow the simulations are not modelled.
\<close>

datatype outcome = Exit int "Result list list" | Fault fault

definition repeat_arg :: "(string \<Rightarrow> int) \<Rightarrow> string list \<Rightarrow> int" where
  "repeat_arg atoi argv =
     (let repeat = 3;
          repeat = (if length argv \<ge> 4 then atoi (argv ! 3) else repeat)
      in if repeat < 1 then 1 else repeat)"

text \<open>The loop \<^verbatim>\<open>for (int r = 0; r < repeat; ++r)\<close>, by the number of rounds left.\<close>

fun main_for :: "qsort_fn \<Rightarrow> string \<Rightarrow> Process list \<Rightarrow> nat \<Rightarrow> Result list list \<Rightarrow> outcome" where
  "main_for qsort alg base 0 runs = Exit 0 runs"
| "main_for qsort alg base (Suc k) runs =
     (if alg = ''fifo'' then main_for qsort alg base k (runs @ [run_fifo base])
      else if alg = ''sjf'' then main_for qsort alg base k (runs @ [run_sjf qsort base])
      else if alg = ''rr'' then
        (case run_rr base of
           Inl e \<Rightarrow> Fault e
         | Inr r \<Rightarrow> main_for qsort alg base k (runs @ [r]))
      else if alg = ''mlfq'' then main_for qsort alg base k (runs @ [run_mlfq base])
      else Exit 1 runs)"

definition main :: "(string \<Rightarrow> int) \<Rightarrow> qsort_fn \<Rightarrow> string list \<Rightarrow> outcome" where
  "main atoi qsort argv =
     (if length argv < 3 then Exit 1 []
      else
        (let alg = argv ! 1;
             scenario = atoi (argv ! 2);
             repeat = repeat_arg atoi argv
         in case make_scenario scenario of
              None \<Rightarrow> Exit 1 []
            | Some base \<Rightarrow> main_for qsort alg base (nat repeat) []))"

section \<open>The processes at completion\<close>

text \<open>
  A record keeps the CPU consumed by a process and not what remains of its demand. To
  speak of a process at its completion, the loops are read once more with the process
  that \<^verbatim>\<open>fill_result\<close> is given in the place of the record made from it.
  \<open>fifo_completed\<close> is the \<^verbatim>\<open>for\<close> loop of \<^verbatim>\<open>run_fifo\<close>, and of
  \<^verbatim>\<open>run_sjf\<close> after the sort.
\<close>

fun fifo_completed :: "Process list \<Rightarrow> real \<Rightarrow> Process list" where
  "fifo_completed [] t = []"
| "fifo_completed (p # ps) t =
     (let p1 = (if first_run_time p < 0 then p\<lparr>first_run_time := t\<rparr> else p);
          (p2, t2) = fifo_while p1 t;
          p3 = p2\<lparr>finish_time := t2\<rparr>
      in p3 # fifo_completed ps t2)"

text \<open>
  One iteration of the loop of \<^verbatim>\<open>run_mlfq\<close>: the process whose record the
  iteration stores, when it stores one.
\<close>

definition mlfq_completed_step :: "mlfq_state \<Rightarrow> nat \<Rightarrow> Process list" where
  "mlfq_completed_step s qidx =
     (let p = hd (queues s ! qidx);
          p = (if first_run_time p < 0 then p\<lparr>first_run_time := mlfq_t s\<rparr> else p);
          (p, taken, io_dur) = eat_cpu p QUANTUM;
          t = mlfq_t s + taken;
          t = (if io_dur \<ge> 0 then t + io_dur else t)
      in if is_done p then [p\<lparr>finish_time := t\<rparr>] else [])"

text \<open>The loop of \<^verbatim>\<open>run_mlfq\<close>: the processes in the order their records are stored.\<close>

function mlfq_completed :: "mlfq_state \<Rightarrow> Process list" where
  "mlfq_completed s =
     (case first_nonempty (queues s) 0 of
        None \<Rightarrow> []
      | Some qidx \<Rightarrow> mlfq_completed_step s qidx @ mlfq_completed (mlfq_body s qidx))"
  by pat_completeness auto

section \<open>The consumption step in binary64 arithmetic\<close>

text \<open>
  The fields of a process are C doubles, and the definitions above compute with real
  numbers. Where a property depends on how a sum is rounded, the step is taken as a
  machine takes it that evaluates expressions of type \<^verbatim>\<open>double\<close> in the binary64
  format of IEEE 754 with its default rounding: every operation gives the binary64 value
  nearest to the exact result, a tie going to the value with the even significand.
  \<open>fl64 x\<close> is that value.
  \<open>binade x\<close> is the binary exponent of \<open>x\<close>, \<open>ulp64 x\<close> the spacing of the binary64
  values around \<open>x\<close>, which is \<open>2 powi (- 1074)\<close> for every \<open>x\<close> below the least normal
  value \<open>2 powi (- 1022)\<close>, and \<open>rte\<close> rounds to the nearest integer, a tie going to the even
  one. The format ends below \<open>2 ^ 1024\<close>; a result beyond it, which the machine gives as
  an infinity, is not modelled.
\<close>

definition rte :: "real \<Rightarrow> int" where
  "rte y = (let f = \<lfloor>y\<rfloor>; d = y - of_int f
            in if d < 1 / 2 then f else if 1 / 2 < d then f + 1
               else if even f then f else f + 1)"

definition binade :: "real \<Rightarrow> int" where
  "binade x = \<lfloor>log 2 \<bar>x\<bar>\<rfloor>"

definition ulp64 :: "real \<Rightarrow> real" where
  "ulp64 x = 2 powi (max (binade x) (- 1022) - 52)"

definition fl64 :: "real \<Rightarrow> real" where
  "fl64 x = of_int (rte (x / ulp64 x)) * ulp64 x"

text \<open>
  \<^verbatim>\<open>eat_cpu\<close> with each arithmetic operation rounded by \<open>rnd\<close>: the differences
  \<^verbatim>\<open>ev.when_cpu - p->cpu_consumed\<close>, \<^verbatim>\<open>p->cpu_consumed - ev.when_cpu\<close> and
  \<^verbatim>\<open>ev.when_cpu - 1e-9\<close>, the updates \<^verbatim>\<open>p->cpu_consumed += take\<close>,
  \<^verbatim>\<open>p->remaining -= take\<close> and \<^verbatim>\<open>p->blocked_time += ev.duration\<close>, and the
  decimal constants \<^verbatim>\<open>EPS\<close>, \<^verbatim>\<open>1e-6\<close> and \<^verbatim>\<open>1e-9\<close>, which the compiler
  rounds. Comparisons, \<^verbatim>\<open>fabs\<close> and assignments are exact. \<open>eat_cpu_double\<close> is the step
  in binary64 arithmetic.
\<close>

definition eat_cpu_rounded :: "(real \<Rightarrow> real) \<Rightarrow> Process \<Rightarrow> real \<Rightarrow> Process \<times> real \<times> real" where
  "eat_cpu_rounded rnd p dt =
     (if next_io_index p < io_count p then
        (let ev = io_events p ! next_io_index p;
             cpu_until_io = rnd (when_cpu ev - cpu_consumed p)
         in if cpu_until_io \<le> rnd EPS then
              (p\<lparr>next_io_index := next_io_index p + 1,
                 blocked_time := rnd (blocked_time p + duration ev)\<rparr>, 0, duration ev)
            else
              (let take = dt;
                   take = (if take > cpu_until_io then cpu_until_io else take);
                   take = (if take > remaining p then remaining p else take);
                   p1 = p\<lparr>cpu_consumed := rnd (cpu_consumed p + take),
                          remaining := rnd (remaining p - take)\<rparr>
               in if \<bar>rnd (cpu_consumed p1 - when_cpu ev)\<bar> < rnd (1 / 1000000)
                     \<or> cpu_consumed p1 > rnd (when_cpu ev - rnd (1 / 1000000000)) then
                    (p1\<lparr>next_io_index := next_io_index p1 + 1,
                        blocked_time := rnd (blocked_time p1 + duration ev)\<rparr>, take, duration ev)
                  else (p1, take, - 1)))
      else
        (let take = dt;
             take = (if take > remaining p then remaining p else take)
         in (p\<lparr>cpu_consumed := rnd (cpu_consumed p + take),
                remaining := rnd (remaining p - take)\<rparr>, take, - 1)))"

definition eat_cpu_double :: "Process \<Rightarrow> real \<Rightarrow> Process \<times> real \<times> real" where
  "eat_cpu_double = eat_cpu_rounded fl64"

section \<open>Sample inputs and partial runs\<close>


text \<open>
  A process definition whose only I/O event is due \<open>EPS\<close> before the end of the first
  quantum.
\<close>

definition edge_io_def :: Process where
  "edge_io_def = new_process ''P'' 10 [io (499999999 / 1000000000) (1 / 10)]"

text \<open>
  A reader of decimal numbers in the manner of \<^verbatim>\<open>atoi\<close> (leading blanks, a sign,
  then digits; 0 when there is no digit), for stating concrete command lines.
\<close>

fun digits_value :: "string \<Rightarrow> int \<Rightarrow> int" where
  "digits_value [] acc = acc"
| "digits_value (c # cs) acc =
     (if 48 \<le> (of_char c :: nat) \<and> (of_char c :: nat) \<le> 57
      then digits_value cs (acc * 10 + (int (of_char c) - 48))
      else acc)"

definition atoi_c :: "string \<Rightarrow> int" where
  "atoi_c s =
     (case dropWhile (\<lambda>c. c = CHR '' '') s of
        [] \<Rightarrow> 0
      | c # cs \<Rightarrow>
          if c = CHR ''-'' then - digits_value cs 0
          else if c = CHR ''+'' then digits_value cs 0
          else digits_value (c # cs) 0)"

text \<open>
  The first \<open>n\<close> iterations of the loop of \<^verbatim>\<open>run_rr\<close>, for looking at the state
  part of the way through a run.
\<close>

fun rr_iterate :: "nat \<Rightarrow> nat \<Rightarrow> rr_state \<Rightarrow> fault + rr_state" where
  "rr_iterate cap 0 s = Inr s"
| "rr_iterate cap (Suc n) s =
     (if rr_qstart s < length (rr_queue s) then
        (case rr_body cap s of
           Inl e \<Rightarrow> Inl e
         | Inr s' \<Rightarrow> rr_iterate cap n s')
      else Inr s)"

text \<open>The first \<open>n\<close> iterations of the loop of \<^verbatim>\<open>run_mlfq\<close>.\<close>

fun mlfq_iterate :: "nat \<Rightarrow> mlfq_state \<Rightarrow> mlfq_state" where
  "mlfq_iterate 0 s = s"
| "mlfq_iterate (Suc n) s =
     (case first_nonempty (queues s) 0 of
        None \<Rightarrow> s
      | Some qidx \<Rightarrow> mlfq_iterate n (mlfq_body s qidx))"

text \<open>
  A process with a demand of 0.9 and one I/O event of duration 0.2 due at 0.3 units of
  CPU, as the compiler reads the three decimal constants: each is the nearest binary64
  value.
\<close>

definition rounding_def :: Process where
  "rounding_def = new_process ''P'' (fl64 (9 / 10)) [io (fl64 (3 / 10)) (fl64 (2 / 10))]"

text \<open>
  The first \<open>n\<close> iterations of the inner loop of \<^verbatim>\<open>run_fifo\<close> on one process, in
  binary64 arithmetic; the clock is left out.
\<close>

fun fifo_steps_double :: "nat \<Rightarrow> Process \<Rightarrow> Process" where
  "fifo_steps_double 0 p = p"
| "fifo_steps_double (Suc n) p =
     (if remaining p \<le> fl64 EPS then p
      else fifo_steps_double n (fst (eat_cpu_double p (remaining p))))"

text \<open>The process \<open>rounding_def\<close> after \<^verbatim>\<open>clone_processes\<close> and one such iteration.\<close>

definition rounding_state :: Process where
  "rounding_state = fifo_steps_double 1 (hd (clone_processes [rounding_def]))"

section \<open>Invariants of a run\<close>

text \<open>
  What holds of every process while a policy runs the processes cloned from \<open>orig\<close>, at
  clock value \<open>t\<close>: \<open>remaining\<close> is not negative and is the demand less the CPU
  consumed, the first-run time is not after the clock, and the process is one of
  \<open>orig\<close> by name and demand. What holds of every record emitted: the first run is
  between 0 and the finish time, and the CPU consumed is within \<open>EPS\<close> below the demand
  of the process of that name. The records are emitted with finish times that do not
  decrease and do not exceed the clock.
\<close>

definition proc_inv :: "Process list \<Rightarrow> real \<Rightarrow> Process \<Rightarrow> bool" where
  "proc_inv orig t p \<longleftrightarrow>
     0 \<le> remaining p
     \<and> remaining p = total_cpu_needed p - cpu_consumed p
     \<and> first_run_time p \<le> t
     \<and> (\<exists>d \<in> set orig. name d = name p \<and> total_cpu_needed d = total_cpu_needed p)"

definition res_ok :: "Process list \<Rightarrow> Result \<Rightarrow> bool" where
  "res_ok orig r \<longleftrightarrow>
     0 \<le> FirstRun r \<and> FirstRun r \<le> Elapsed r
     \<and> (\<exists>d \<in> set orig. rname r = name d
           \<and> total_cpu_needed d - EPS \<le> CPU r \<and> CPU r \<le> total_cpu_needed d)"

definition results_inv :: "Process list \<Rightarrow> real \<Rightarrow> Result list \<Rightarrow> bool" where
  "results_inv orig t res \<longleftrightarrow>
     (\<forall>r \<in> set res. res_ok orig r \<and> Elapsed r \<le> t) \<and> sorted (map Elapsed res)"

definition rr_inv :: "Process list \<Rightarrow> rr_state \<Rightarrow> bool" where
  "rr_inv orig s \<longleftrightarrow>
     0 \<le> rr_t s
     \<and> (\<forall>p \<in> set (rr_queue s). proc_inv orig (rr_t s) p)
     \<and> results_inv orig (rr_t s) (rr_res s)"

definition mlfq_inv :: "Process list \<Rightarrow> mlfq_state \<Rightarrow> bool" where
  "mlfq_inv orig s \<longleftrightarrow>
     0 \<le> mlfq_t s
     \<and> (\<forall>q \<in> set (queues s). \<forall>p \<in> set q. proc_inv orig (mlfq_t s) p)
     \<and> results_inv orig (mlfq_t s) (mlfq_res s)"

text \<open>The names of the processes waiting in the queues of MLFQ, with their multiplicities.\<close>

definition queued_names :: "Process list list \<Rightarrow> string multiset" where
  "queued_names qs = sum_list (map (\<lambda>q. mset (map name q)) qs)"

text \<open>
  Conservation, of a process: nothing remains of its demand, the CPU it consumed is its
  demand, and it is one of \<open>orig\<close> by name and demand. Of a record: its \<open>CPU\<close> is the
  demand of the process of that name.
\<close>

definition conserved :: "Process list \<Rightarrow> Process \<Rightarrow> bool" where
  "conserved orig p \<longleftrightarrow>
     remaining p = 0 \<and> cpu_consumed p = total_cpu_needed p
     \<and> (\<exists>d \<in> set orig. name d = name p \<and> total_cpu_needed d = total_cpu_needed p)"

definition res_conserved :: "Process list \<Rightarrow> Result \<Rightarrow> bool" where
  "res_conserved orig r \<longleftrightarrow> (\<exists>d \<in> set orig. rname r = name d \<and> CPU r = total_cpu_needed d)"

text \<open>
  In the four built-in scenarios every demand and every I/O threshold is a multiple of
  one tenth, and so is the quantum. With the arithmetic of the policies read as exact,
  \<open>grid_inv\<close> holds of a process while a policy runs such a scenario:
  \<open>remaining\<close> and \<open>cpu_consumed\<close> are multiples of one tenth, as are
  the thresholds of its I/O events, \<open>remaining\<close> is not negative and is the demand less
  the CPU consumed, and the process is one of \<open>orig\<close> by name and demand.
\<close>

definition tenth :: "real \<Rightarrow> bool" where
  "tenth x \<longleftrightarrow> 10 * x \<in> \<int>"

definition grid_inv :: "Process list \<Rightarrow> Process \<Rightarrow> bool" where
  "grid_inv orig p \<longleftrightarrow>
     0 \<le> remaining p
     \<and> remaining p = total_cpu_needed p - cpu_consumed p
     \<and> tenth (remaining p) \<and> tenth (cpu_consumed p)
     \<and> (\<forall>e \<in> set (io_events p). tenth (when_cpu e))
     \<and> (\<exists>d \<in> set orig. name d = name p \<and> total_cpu_needed d = total_cpu_needed p)"

definition mlfq_grid :: "Process list \<Rightarrow> mlfq_state \<Rightarrow> bool" where
  "mlfq_grid orig s \<longleftrightarrow> (\<forall>q \<in> set (queues s). \<forall>p \<in> set q. grid_inv orig p)"

definition rr_grid :: "Process list \<Rightarrow> rr_state \<Rightarrow> bool" where
  "rr_grid orig s \<longleftrightarrow>
     (\<forall>p \<in> set (rr_queue s). grid_inv orig p)
     \<and> list_all (res_conserved orig) (rr_res s)"

section \<open>Measures for the loops\<close>

text \<open>
  What is left of a process, counted in steps: the units of \<open>EPS\<close> of CPU it still
  needs, and its I/O events not yet triggered.
\<close>

definition proc_measure :: "Process \<Rightarrow> nat" where
  "proc_measure p = nat \<lceil>remaining p / EPS\<rceil> + (io_count p - next_io_index p) + 1"

definition queue_work :: "Process list \<Rightarrow> nat" where
  "queue_work q = sum_list (map proc_measure q)"

definition queued_work :: "Process list list \<Rightarrow> nat" where
  "queued_work qs = sum_list (map queue_work qs)"

section \<open>Facts about the consumption step\<close>

lemma EPS_pos: "0 < EPS"
  by (simp add: EPS_def)

lemma EPS_less_QUANTUM: "EPS < QUANTUM"
  by (simp add: EPS_def QUANTUM_def)

lemma eat_cpu_remaining:
  "eat_cpu p dt = (p', taken, io_dur) \<Longrightarrow> remaining p' = remaining p - taken"
  by (auto simp: eat_cpu_def Let_def split: if_splits)

lemma eat_cpu_consumed:
  "eat_cpu p dt = (p', taken, io_dur) \<Longrightarrow> cpu_consumed p' = cpu_consumed p + taken"
  by (auto simp: eat_cpu_def Let_def split: if_splits)

lemma eat_cpu_frame:
  "eat_cpu p dt = (p', taken, io_dur) \<Longrightarrow>
     name p' = name p \<and> total_cpu_needed p' = total_cpu_needed p \<and> io_events p' = io_events p
     \<and> first_run_time p' = first_run_time p \<and> finish_time p' = finish_time p"
  by (auto simp: eat_cpu_def Let_def split: if_splits)

lemma eat_cpu_io_count:
  "eat_cpu p dt = (p', taken, io_dur) \<Longrightarrow> io_count p' = io_count p"
  by (simp add: io_count_def eat_cpu_frame)

lemma eat_cpu_index:
  "eat_cpu p dt = (p', taken, io_dur) \<Longrightarrow>
     next_io_index p \<le> next_io_index p' \<and> next_io_index p' \<le> Suc (next_io_index p)"
  by (auto simp: eat_cpu_def Let_def split: if_splits)

lemma eat_cpu_trichotomy:
  assumes "eat_cpu p dt = (p', taken, io_dur)" and "EPS < dt"
  shows "(taken = 0 \<and> next_io_index p < io_count p \<and> next_io_index p' = Suc (next_io_index p))
       \<or> remaining p' = 0
       \<or> EPS < taken"
  using assms by (auto simp: eat_cpu_def Let_def split: if_splits)

lemma eat_cpu_taken_bounds:
  assumes "eat_cpu p dt = (p', taken, io_dur)" and "0 \<le> dt" and "0 \<le> remaining p"
  shows "0 \<le> taken \<and> taken \<le> dt \<and> taken \<le> remaining p"
  using assms EPS_pos by (auto simp: eat_cpu_def Let_def split: if_splits)

section \<open>Termination of the loops\<close>

lemma eat_progress:
  assumes "\<not> is_done p" and "(p', taken, io_dur) = eat_cpu p (remaining p)"
  shows "(is_done p' \<longrightarrow> io_count p' - next_io_index p' < Suc (io_count p - next_io_index p))
       \<and> (\<not> is_done p' \<longrightarrow> io_count p' - next_io_index p' < io_count p - next_io_index p)"
  using assms
  by (auto simp: eat_cpu_def is_done_def io_count_def EPS_def Let_def split: if_splits)

termination fifo_while
  by (relation "measure (\<lambda>(p, t). io_count p - next_io_index p + (if is_done p then 0 else 1))")
     (auto dest: eat_progress)

termination sjf_while
  by (relation "measure (\<lambda>(p, t). io_count p - next_io_index p + (if is_done p then 0 else 1))")
     (auto dest: eat_progress)

lemma rr_body_progress:
  assumes "rr_qstart s < length (rr_queue s)" and "rr_body cap s = Inr s'"
  shows "max cap (length (rr_queue s')) - rr_qstart s' < max cap (length (rr_queue s)) - rr_qstart s"
  using assms
  by (auto simp: rr_body_def Let_def split: prod.splits if_splits)

termination rr_while
  by (relation "measure (\<lambda>(cap, s). max cap (length (rr_queue s)) - rr_qstart s)")
     (auto dest: rr_body_progress)

lemma ceiling_step:
  fixes r k :: real
  assumes "EPS < k" "EPS < r - k"
  shows "nat \<lceil>(r - k) / EPS\<rceil> < nat \<lceil>r / EPS\<rceil>"
proof -
  have e: "0 < EPS" by (simp add: EPS_def)
  have "(r - k) / EPS + 1 \<le> r / EPS"
    using assms e by (simp add: field_simps)
  then have "\<lceil>(r - k) / EPS\<rceil> + 1 \<le> \<lceil>r / EPS\<rceil>"
    by (metis ceiling_add_one ceiling_mono)
  moreover have "0 < (r - k) / EPS" using assms e by simp
  then have "0 < \<lceil>(r - k) / EPS\<rceil>" by simp
  ultimately show ?thesis by linarith
qed

lemma eat_cpu_quantum_progress:
  assumes e: "eat_cpu p QUANTUM = (p', taken, io_dur)" and nd: "\<not> is_done p'"
  shows "proc_measure p' < proc_measure p"
proof -
  note r = eat_cpu_remaining [OF e] and c = eat_cpu_io_count [OF e] and i = eat_cpu_index [OF e]
  from nd have pos: "EPS < remaining p'" by (simp add: is_done_def)
  from eat_cpu_trichotomy [OF e EPS_less_QUANTUM]
  consider "taken = 0" "next_io_index p < io_count p" "next_io_index p' = Suc (next_io_index p)"
    | "remaining p' = 0" | "EPS < taken"
    by blast
  then show ?thesis
  proof cases
    case 1
    then show ?thesis using r c by (simp add: proc_measure_def)
  next
    case 2
    then show ?thesis using pos EPS_pos by simp
  next
    case 3
    with pos r have "nat \<lceil>remaining p' / EPS\<rceil> < nat \<lceil>remaining p / EPS\<rceil>"
      using ceiling_step [of taken "remaining p"] by simp
    moreover have "io_count p' - next_io_index p' \<le> io_count p - next_io_index p"
      using c i by auto
    ultimately show ?thesis unfolding proc_measure_def by linarith
  qed
qed

lemma first_nonempty_Some:
  "first_nonempty qs i = Some k \<Longrightarrow>
     i \<le> k \<and> k - i < length qs \<and> qs ! (k - i) \<noteq> [] \<and> (\<forall>j < k - i. qs ! j = [])"
proof (induction qs arbitrary: i)
  case Nil
  then show ?case by simp
next
  case (Cons q qs)
  show ?case
  proof (cases "q = []")
    case True
    with Cons.prems have "first_nonempty qs (i + 1) = Some k" by simp
    from Cons.IH [OF this]
    have ih: "Suc i \<le> k" "k - Suc i < length qs" "qs ! (k - Suc i) \<noteq> []"
      "\<forall>j < k - Suc i. qs ! j = []"
      by simp_all
    from ih(1) have d: "k - i = Suc (k - Suc i)" by simp
    show ?thesis
      using ih True unfolding d by (auto simp: nth_Cons split: nat.splits)
  next
    case False
    with Cons.prems show ?thesis by simp
  qed
qed

lemma first_nonempty_None:
  "first_nonempty qs i = None \<longleftrightarrow> (\<forall>q \<in> set qs. q = [])"
  by (induction qs arbitrary: i) auto

lemma queued_work_update:
  "k < length qs \<Longrightarrow> queued_work (qs[k := q]) + queue_work (qs ! k) = queued_work qs + queue_work q"
  unfolding queued_work_def
  by (induction qs arbitrary: k) (auto simp: nth_Cons split: nat.splits)

lemma proc_measure_first_run [simp]:
  "proc_measure (p\<lparr>first_run_time := t\<rparr>) = proc_measure p"
  by (simp add: proc_measure_def io_count_def)

lemma mlfq_body_progress:
  assumes "first_nonempty (queues s) 0 = Some qidx"
  shows "queued_work (queues (mlfq_body s qidx)) < queued_work (queues s)"
proof -
  from first_nonempty_Some [OF assms]
  have k: "qidx < length (queues s)" and ne: "queues s ! qidx \<noteq> []" by simp_all
  define q where "q = queues s ! qidx"
  define p1 where "p1 = (if first_run_time (hd q) < 0 then (hd q)\<lparr>first_run_time := mlfq_t s\<rparr> else hd q)"
  define qs where "qs = (queues s)[qidx := tl q]"
  obtain p2 taken io_dur where e: "eat_cpu p1 QUANTUM = (p2, taken, io_dur)"
    by (cases "eat_cpu p1 QUANTUM") auto
  have m1: "proc_measure p1 = proc_measure (hd q)" by (simp add: p1_def)
  have "queue_work q = proc_measure (hd q) + queue_work (tl q)"
    using ne by (cases q) (simp_all add: q_def queue_work_def)
  with queued_work_update [OF k, of "tl q"]
  have w: "queued_work qs + proc_measure p1 = queued_work (queues s)"
    by (simp add: qs_def q_def m1)
  have pos: "0 < proc_measure p1" by (simp add: proc_measure_def)
  show ?thesis
  proof (cases "is_done p2")
    case True
    then have "queues (mlfq_body s qidx) = qs"
      using e unfolding p1_def q_def qs_def
      by (simp add: mlfq_body_def Let_def split del: if_split)
    with w pos show ?thesis by simp
  next
    case False
    define j where "j = new_q qidx taken"
    from False have b: "queues (mlfq_body s qidx) = qs[j := qs ! j @ [p2]]"
      using e unfolding p1_def q_def qs_def j_def
      by (simp add: mlfq_body_def Let_def split del: if_split)
    have lt: "proc_measure p2 < proc_measure p1"
      by (rule eat_cpu_quantum_progress [OF e False])
    show ?thesis
    proof (cases "j < length qs")
      case True
      from queued_work_update [OF True, of "qs ! j @ [p2]"]
      have "queued_work (qs[j := qs ! j @ [p2]]) = queued_work qs + proc_measure p2"
        by (simp add: queue_work_def)
      with b w lt show ?thesis by simp
    next
      case False
      then have "qs[j := qs ! j @ [p2]] = qs" by (simp add: list_update_beyond)
      with b w pos show ?thesis by simp
    qed
  qed
qed

termination mlfq_while
  by (relation "measure (\<lambda>s. queued_work (queues s))") (auto dest: mlfq_body_progress)

text \<open>
  The equations of the four loops unfold for ever when they are used as rewrite rules
  on symbolic arguments; they are applied by name where a loop is unfolded.
\<close>

declare fifo_while.simps [simp del]

declare sjf_while.simps [simp del]

declare rr_while.simps [simp del]

declare mlfq_while.simps [simp del]

termination mlfq_completed
  by (relation "measure (\<lambda>s. queued_work (queues s))") (auto dest: mlfq_body_progress)

declare mlfq_completed.simps [simp del]

section \<open>The consumption step (claim C1)\<close>




section \<open>The consumption step in binary64 arithmetic (claim C10)\<close>

text \<open>
  With exact arithmetic a step keeps \<open>remaining = total_cpu_needed - cpu_consumed\<close>:
  what is taken from \<open>remaining\<close> is added to \<open>cpu_consumed\<close>, and it is at most
  \<open>remaining\<close>.
\<close>

lemma eat_cpu_exact_balance:
  assumes "0 < dt" and "0 \<le> cpu_consumed p"
    and "remaining p = total_cpu_needed p - cpu_consumed p" and "0 \<le> remaining p"
    and "eat_cpu p dt = (p', taken, io_dur)"
  shows "0 \<le> remaining p'
       \<and> remaining p' = total_cpu_needed p' - cpu_consumed p'
       \<and> cpu_consumed p' \<le> total_cpu_needed p'
       \<and> taken \<le> remaining p"
  using eat_cpu_taken_bounds [OF assms(5) _ assms(4)] assms(1-3)
    eat_cpu_remaining [OF assms(5)] eat_cpu_consumed [OF assms(5)] eat_cpu_frame [OF assms(5)]
  by simp

text \<open>The rounded step with no rounding is the step in exact arithmetic.\<close>

lemma eat_cpu_rounded_exact: "eat_cpu_rounded (\<lambda>x. x) = eat_cpu"
  by (intro ext) (simp add: eat_cpu_rounded_def eat_cpu_def EPS_def)

text \<open>
  Rounding to binary64: the exponent of a value between two powers of 2, the rounding of
  such a value, and the two properties of rounding that the step needs: the rounded
  value of a non-negative number is not negative, and it is within half a spacing of the
  number.
\<close>

lemma binade_eq:
  assumes "2 powi e \<le> \<bar>x\<bar>" and "\<bar>x\<bar> < 2 powi (e + 1)"
  shows "binade x = e"
proof -
  have "(0::real) < 2 powi e" by simp
  with assms(1) have p: "0 < \<bar>x\<bar>" by linarith
  have a: "2 powr real_of_int e = 2 powi e" and b: "2 powr real_of_int (e + 1) = 2 powi (e + 1)"
    by (rule powr_real_of_int'; simp)+
  from assms have "2 powr real_of_int e \<le> \<bar>x\<bar> \<and> \<bar>x\<bar> < 2 powr real_of_int (e + 1)"
    unfolding a b by simp
  with p show ?thesis unfolding binade_def
    by (subst floor_log_eq_powr_iff) simp_all
qed

lemma fl64_eval:
  assumes "2 powi e \<le> \<bar>x\<bar>" and "\<bar>x\<bar> < 2 powi (e + 1)"
  shows "fl64 x = of_int (rte (x / 2 powi (max e (- 1022) - 52))) * 2 powi (max e (- 1022) - 52)"
  by (simp add: fl64_def ulp64_def binade_eq [OF assms])

lemma fl64_0 [simp]: "fl64 0 = 0"
  by (simp add: fl64_def rte_def)

lemma ulp64_pos: "0 < ulp64 x"
  by (simp add: ulp64_def)

lemma rte_nonneg: "0 \<le> y \<Longrightarrow> 0 \<le> rte y"
  by (auto simp: rte_def Let_def)

lemma rte_error: "\<bar>of_int (rte y) - y\<bar> \<le> 1 / 2"
  unfolding rte_def Let_def by (auto; linarith)

lemma fl64_nonneg: "0 \<le> x \<Longrightarrow> 0 \<le> fl64 x"
  unfolding fl64_def using ulp64_pos [of x] rte_nonneg [of "x / ulp64 x"] by simp

lemma fl64_error: "\<bar>fl64 x - x\<bar> \<le> ulp64 x / 2"
proof -
  let ?u = "ulp64 x"
  have u: "0 < ?u" by (rule ulp64_pos)
  have "fl64 x - x = (of_int (rte (x / ?u)) - x / ?u) * ?u"
    using u by (simp add: fl64_def left_diff_distrib)
  then have "\<bar>fl64 x - x\<bar> = \<bar>of_int (rte (x / ?u)) - x / ?u\<bar> * ?u"
    using u by (simp add: abs_mult)
  also have "\<dots> \<le> 1 / 2 * ?u"
    using rte_error [of "x / ?u"] u by (intro mult_right_mono) simp_all
  finally show ?thesis by simp
qed

text \<open>
  The binary64 values of the constants 0.9, 0.3, 0.2, \<^verbatim>\<open>1e-9\<close> and \<^verbatim>\<open>1e-6\<close>, and
  of the sums and differences that the two steps below compute.
\<close>

lemma fl64_values:
  "fl64 (9 / 10) = 8106479329266893 / 9007199254740992"
  "fl64 (3 / 10) = 5404319552844595 / 18014398509481984"
  "fl64 (1 / 5) = 3602879701896397 / 18014398509481984"
  "fl64 (1 / 1000000000) = 4835703278458517 / 4835703278458516698824704"
  "fl64 (1 / 1000000) = 4722366482869645 / 4722366482869645213696"
  "fl64 (5404319552844595 / 18014398509481984) = 5404319552844595 / 18014398509481984"
  "fl64 (3602879701896397 / 18014398509481984) = 3602879701896397 / 18014398509481984"
  "fl64 (10808639105689191 / 18014398509481984) = 1351079888211149 / 2251799813685248"
  "fl64 (16212958658533787 / 18014398509481984) = 4053239664633447 / 4503599627370496"
  "fl64 (- (1 / 9007199254740992)) = - (1 / 9007199254740992)"
           apply (subst fl64_eval [where e = "- 1"]; simp add: rte_def power_int_minus)
          apply (subst fl64_eval [where e = "- 2"]; simp add: rte_def power_int_minus)
         apply (subst fl64_eval [where e = "- 3"]; simp add: rte_def power_int_minus)
        apply (subst fl64_eval [where e = "- 30"]; simp add: rte_def power_int_minus)
       apply (subst fl64_eval [where e = "- 20"]; simp add: rte_def power_int_minus)
      apply (subst fl64_eval [where e = "- 2"]; simp add: rte_def power_int_minus)
     apply (subst fl64_eval [where e = "- 3"]; simp add: rte_def power_int_minus)
    apply (subst fl64_eval [where e = "- 1"]; simp add: rte_def power_int_minus)
   apply (subst fl64_eval [where e = "- 1"]; simp add: rte_def power_int_minus)
  apply (subst fl64_eval [where e = "- 53"]; simp add: rte_def power_int_minus)
  done

lemmas dbl_eval = eat_cpu_double_def eat_cpu_rounded_def rounding_def_def clone_processes_def
  new_process_def io_def io_count_def EPS_def fl64_values Let_def

lemma rounding_state_eq:
  "rounding_state
     = \<lparr>name = ''P'', total_cpu_needed = 8106479329266893 / 9007199254740992,
        io_events = [\<lparr>when_cpu = 5404319552844595 / 18014398509481984,
                      duration = 3602879701896397 / 18014398509481984\<rparr>],
        remaining = 1351079888211149 / 2251799813685248,
        cpu_consumed = 5404319552844595 / 18014398509481984,
        blocked_time = 3602879701896397 / 18014398509481984, first_run_time = - 1,
        finish_time = - 1, next_io_index = 1\<rparr>"
  by (simp add: rounding_state_def dbl_eval)

text \<open>
  A step in binary64 arithmetic, by its outcome: either nothing is consumed, or
  \<open>remaining\<close> and \<open>cpu_consumed\<close> are each the rounded value of the exact difference and
  sum, and the amount consumed is the least of \<open>dt\<close>, \<open>remaining\<close> and, with an I/O event
  pending, the CPU left until it.
\<close>

lemma eat_cpu_double_cases:
  assumes "eat_cpu_double p dt = (p', taken, io_dur)"
  shows "total_cpu_needed p' = total_cpu_needed p
       \<and> ((taken = 0 \<and> remaining p' = remaining p \<and> cpu_consumed p' = cpu_consumed p)
          \<or> (remaining p' = fl64 (remaining p - taken)
              \<and> cpu_consumed p' = fl64 (cpu_consumed p + taken)
              \<and> (taken = min dt (remaining p)
                  \<or> (fl64 EPS < fl64 (when_cpu (io_events p ! next_io_index p) - cpu_consumed p)
                      \<and> taken = min (min dt (fl64 (when_cpu (io_events p ! next_io_index p)
                                                     - cpu_consumed p))) (remaining p)))))"
  using assms unfolding eat_cpu_double_def eat_cpu_rounded_def Let_def
  by (auto split: if_splits simp: min_def)

text \<open>
  Claim C10, as the code has it. \<^verbatim>\<open>p->cpu_consumed += take\<close> and
  \<^verbatim>\<open>p->remaining -= take\<close> are two operations on doubles, each rounded on its own.
  For \<open>dt > 0\<close> and a state with \<open>0 \<le> cpu_consumed\<close> and \<open>0 \<le> remaining\<close>, both far
  from the end of the format, the amount consumed is capped: \<open>0 \<le> taken\<close>,
  \<open>taken \<le> remaining\<close> and \<open>taken \<le> dt\<close>. The state after the step has
  \<open>0 \<le> remaining\<close> and \<open>0 \<le> cpu_consumed\<close>, and the demand is not touched. Either
  nothing is consumed and both fields are as before, or \<open>remaining\<close> is the binary64 value
  nearest to \<open>remaining - taken\<close> and \<open>cpu_consumed\<close> the one nearest to
  \<open>cpu_consumed + taken\<close>; each is within half a spacing of the exact value. So
  \<open>remaining = total_cpu_needed - cpu_consumed\<close> is kept up to these two roundings and
  not exactly: the distance between \<open>remaining\<close> and
  \<open>total_cpu_needed - cpu_consumed\<close> grows in a step by at most the two half spacings.
  Nothing keeps \<open>cpu_consumed\<close> from ending above \<open>total_cpu_needed\<close>.
\<close>

theorem eat_cpu_double_step:
  assumes "0 < dt" and "0 \<le> cpu_consumed p" and "0 \<le> remaining p"
    and "cpu_consumed p + remaining p \<le> 2 ^ 1023"
    and "eat_cpu_double p dt = (p', taken, io_dur)"
  shows "0 \<le> remaining p' \<and> 0 \<le> cpu_consumed p'
       \<and> 0 \<le> taken \<and> taken \<le> remaining p \<and> taken \<le> dt
       \<and> total_cpu_needed p' = total_cpu_needed p
       \<and> ((taken = 0 \<and> remaining p' = remaining p \<and> cpu_consumed p' = cpu_consumed p)
          \<or> (remaining p' = fl64 (remaining p - taken)
              \<and> cpu_consumed p' = fl64 (cpu_consumed p + taken)))
       \<and> \<bar>remaining p' - (remaining p - taken)\<bar> \<le> ulp64 (remaining p - taken) / 2
       \<and> \<bar>cpu_consumed p' - (cpu_consumed p + taken)\<bar> \<le> ulp64 (cpu_consumed p + taken) / 2
       \<and> \<bar>remaining p' - (total_cpu_needed p' - cpu_consumed p')\<bar>
           \<le> \<bar>remaining p - (total_cpu_needed p - cpu_consumed p)\<bar>
             + ulp64 (remaining p - taken) / 2 + ulp64 (cpu_consumed p + taken) / 2"
proof -
  note c = eat_cpu_double_cases [OF assms(5)]
  have e: "0 \<le> fl64 EPS" by (rule fl64_nonneg) (simp add: EPS_def)
  from c e assms(1,3) have t: "0 \<le> taken \<and> taken \<le> remaining p \<and> taken \<le> dt"
    by (auto simp: min_def)
  from c assms(2,3) t have n: "0 \<le> remaining p' \<and> 0 \<le> cpu_consumed p'"
    by (auto intro!: fl64_nonneg)
  have u: "(taken = 0 \<and> remaining p' = remaining p \<and> cpu_consumed p' = cpu_consumed p)
          \<or> (remaining p' = fl64 (remaining p - taken)
              \<and> cpu_consumed p' = fl64 (cpu_consumed p + taken))"
    using c by blast
  have r: "\<bar>remaining p' - (remaining p - taken)\<bar> \<le> ulp64 (remaining p - taken) / 2"
    using u fl64_error [of "remaining p - taken"] ulp64_pos [of "remaining p - taken"]
    by auto
  have k: "\<bar>cpu_consumed p' - (cpu_consumed p + taken)\<bar> \<le> ulp64 (cpu_consumed p + taken) / 2"
    using u fl64_error [of "cpu_consumed p + taken"] ulp64_pos [of "cpu_consumed p + taken"]
    by auto
  from c have "remaining p' - (total_cpu_needed p' - cpu_consumed p')
      = (remaining p - (total_cpu_needed p - cpu_consumed p))
        + (remaining p' - (remaining p - taken)) + (cpu_consumed p' - (cpu_consumed p + taken))"
    by simp
  with r k have b: "\<bar>remaining p' - (total_cpu_needed p' - cpu_consumed p')\<bar>
           \<le> \<bar>remaining p - (total_cpu_needed p - cpu_consumed p)\<bar>
             + ulp64 (remaining p - taken) / 2 + ulp64 (cpu_consumed p + taken) / 2"
    by linarith
  from n t c u r k b show ?thesis by blast
qed

text \<open>
  Claim C10 as it is stated has \<open>remaining = total_cpu_needed - cpu_consumed\<close> after
  every step, and so \<open>cpu_consumed\<close> never above \<open>total_cpu_needed\<close>. The process
  \<open>rounding_def\<close> has a demand of 0.9 and an I/O event due at 0.3. As
  \<^verbatim>\<open>clone_processes\<close> leaves it, nothing is consumed and \<open>remaining\<close> is the demand. The
  first iteration of the loop of \<^verbatim>\<open>run_fifo\<close> consumes 0.3 and leaves
  \<open>remaining = 0.6000000000000001\<close>, the double nearest to 0.9 - 0.3: it is what
  \<^verbatim>\<open>total_cpu_needed - cpu_consumed\<close> evaluates to, and it is not the exact
  difference of the two doubles. The second iteration consumes all of it: \<open>remaining\<close>
  is 0 and \<open>cpu_consumed\<close> is \<open>0.9000000000000001\<close>, the double nearest to
  0.3 + 0.6000000000000001, which is above the demand; \<open>remaining\<close> is no longer what
  \<^verbatim>\<open>total_cpu_needed - cpu_consumed\<close> evaluates to, which is negative.
\<close>

theorem eat_cpu_balance_counterexample:
  "0 < remaining (hd (clone_processes [rounding_def]))
   \<and> 0 \<le> cpu_consumed (hd (clone_processes [rounding_def]))
   \<and> remaining (hd (clone_processes [rounding_def]))
       = total_cpu_needed (hd (clone_processes [rounding_def]))
         - cpu_consumed (hd (clone_processes [rounding_def]))
   \<and> fst (eat_cpu_double (hd (clone_processes [rounding_def]))
            (remaining (hd (clone_processes [rounding_def])))) = rounding_state
   \<and> total_cpu_needed rounding_state = 8106479329266893 / 9007199254740992
   \<and> cpu_consumed rounding_state = 5404319552844595 / 18014398509481984
   \<and> remaining rounding_state = 1351079888211149 / 2251799813685248
   \<and> remaining rounding_state \<noteq> total_cpu_needed rounding_state - cpu_consumed rounding_state
   \<and> remaining rounding_state
       = fl64 (total_cpu_needed rounding_state - cpu_consumed rounding_state)
   \<and> fifo_steps_double 2 (hd (clone_processes [rounding_def]))
       = fst (eat_cpu_double rounding_state (remaining rounding_state))
   \<and> fst (eat_cpu_double rounding_state (remaining rounding_state))
       = rounding_state\<lparr>cpu_consumed := 4053239664633447 / 4503599627370496, remaining := 0\<rparr>
   \<and> total_cpu_needed rounding_state < 4053239664633447 / 4503599627370496
   \<and> fl64 (total_cpu_needed rounding_state - 4053239664633447 / 4503599627370496)
       = - (1 / 9007199254740992)"
proof -
  have s1: "fst (eat_cpu_double (hd (clone_processes [rounding_def]))
            (remaining (hd (clone_processes [rounding_def])))) = rounding_state"
    by (simp add: rounding_state_def dbl_eval)
  have s2: "fifo_steps_double 2 (hd (clone_processes [rounding_def]))
       = fst (eat_cpu_double rounding_state (remaining rounding_state))"
    by (simp add: rounding_state_def dbl_eval numeral_2_eq_2)
  have s3: "fst (eat_cpu_double rounding_state (remaining rounding_state))
       = rounding_state\<lparr>cpu_consumed := 4053239664633447 / 4503599627370496, remaining := 0\<rparr>"
    by (simp add: rounding_state_eq dbl_eval)
  have a: "0 < remaining (hd (clone_processes [rounding_def]))
   \<and> 0 \<le> cpu_consumed (hd (clone_processes [rounding_def]))
   \<and> remaining (hd (clone_processes [rounding_def]))
       = total_cpu_needed (hd (clone_processes [rounding_def]))
         - cpu_consumed (hd (clone_processes [rounding_def]))"
    by (simp add: dbl_eval)
  have b: "total_cpu_needed rounding_state = 8106479329266893 / 9007199254740992
   \<and> cpu_consumed rounding_state = 5404319552844595 / 18014398509481984
   \<and> remaining rounding_state = 1351079888211149 / 2251799813685248
   \<and> remaining rounding_state \<noteq> total_cpu_needed rounding_state - cpu_consumed rounding_state
   \<and> remaining rounding_state
       = fl64 (total_cpu_needed rounding_state - cpu_consumed rounding_state)"
    by (simp add: rounding_state_eq fl64_values)
  have c: "total_cpu_needed rounding_state < 4053239664633447 / 4503599627370496
   \<and> fl64 (total_cpu_needed rounding_state - 4053239664633447 / 4503599627370496)
       = - (1 / 9007199254740992)"
    by (simp add: rounding_state_eq fl64_values)
  from a s1 b s2 s3 c show ?thesis by simp
qed

text \<open>
  The theorem of claim C10 at the second of these two steps: the state is the one the
  first step leaves, and \<open>dt\<close> is its \<open>remaining\<close>.
\<close>

theorem eat_cpu_double_step_witness:
  "0 < remaining rounding_state \<and> 0 \<le> cpu_consumed rounding_state
   \<and> 0 \<le> remaining rounding_state
   \<and> cpu_consumed rounding_state + remaining rounding_state \<le> 2 ^ 1023
   \<and> eat_cpu_double rounding_state (remaining rounding_state)
       = (rounding_state\<lparr>cpu_consumed := 4053239664633447 / 4503599627370496, remaining := 0\<rparr>,
          1351079888211149 / 2251799813685248, - 1)
   \<and> fl64 (remaining rounding_state - 1351079888211149 / 2251799813685248) = 0
   \<and> fl64 (cpu_consumed rounding_state + 1351079888211149 / 2251799813685248)
       = 4053239664633447 / 4503599627370496
   \<and> \<bar>4053239664633447 / 4503599627370496
        - (cpu_consumed rounding_state + 1351079888211149 / 2251799813685248)\<bar>
       \<le> ulp64 (cpu_consumed rounding_state + 1351079888211149 / 2251799813685248) / 2"
proof -
  have h1: "0 < remaining rounding_state" and h2: "0 \<le> cpu_consumed rounding_state"
    and h3: "0 \<le> remaining rounding_state"
    and h4: "cpu_consumed rounding_state + remaining rounding_state \<le> 2 ^ 1023"
    by (simp_all add: rounding_state_eq)
  have h5: "eat_cpu_double rounding_state (remaining rounding_state)
       = (rounding_state\<lparr>cpu_consumed := 4053239664633447 / 4503599627370496, remaining := 0\<rparr>,
          1351079888211149 / 2251799813685248, - 1)"
    by (simp add: rounding_state_eq dbl_eval)
  note th = eat_cpu_double_step [OF h1 h2 h3 h4 h5]
  from th have c1: "fl64 (remaining rounding_state - 1351079888211149 / 2251799813685248) = 0"
    and c2: "fl64 (cpu_consumed rounding_state + 1351079888211149 / 2251799813685248)
       = 4053239664633447 / 4503599627370496"
    by simp_all
  from th have c3: "\<bar>4053239664633447 / 4503599627370496
        - (cpu_consumed rounding_state + 1351079888211149 / 2251799813685248)\<bar>
       \<le> ulp64 (cpu_consumed rounding_state + 1351079888211149 / 2251799813685248) / 2"
    by simp
  show ?thesis
    by (rule conjI [OF h1 conjI [OF h2 conjI [OF h3 conjI [OF h4 conjI [OF h5 conjI [OF c1
          conjI [OF c2 c3]]]]]]])
qed

section \<open>FIFO on scenario 1 (claim C3)\<close>

text \<open>
  Claim C3. Scenario 1 (A:10, B:15, C:20, no I/O) under FIFO yields
  Elapsed 10, 25, 45; CPU 10, 15, 20; BLOCKED 0, 0, 0; FirstRun 0, 10, 25.
\<close>

theorem run_fifo_scenario1:
  "run_fifo make_scenario1 =
     [\<lparr>rname = ''A'', Elapsed = 10, CPU = 10, BLOCKED = 0, FirstRun = 0\<rparr>,
      \<lparr>rname = ''B'', Elapsed = 25, CPU = 15, BLOCKED = 0, FirstRun = 10\<rparr>,
      \<lparr>rname = ''C'', Elapsed = 45, CPU = 20, BLOCKED = 0, FirstRun = 25\<rparr>]"
  by (simp add: run_fifo_def make_scenario1_def new_process_def clone_processes_def
      fifo_while.simps eat_cpu_def is_done_def io_count_def EPS_def store_result_def fill_result_def
      blank_result_def Let_def)

section \<open>The command line (claim C9)\<close>

lemma main_for_fifo:
  "main_for qsort ''fifo'' base k runs = Exit 0 (runs @ replicate k (run_fifo base))"
  by (induction k arbitrary: runs) (simp_all add: replicate_app_Cons_same)

lemma main_for_unknown:
  assumes "alg \<notin> {''fifo'', ''sjf'', ''rr'', ''mlfq''}" and "0 < k"
  shows "main_for qsort alg base k runs = Exit 1 runs"
  using assms by (cases k) simp_all

text \<open>
  Claim C9. With fewer than two arguments after the program name, with a scenario number
  other than 1, 2, 3, 4, or with a policy name other than fifo, sjf, rr, mlfq, the program
  exits with code 1 and no simulation has been run. The repeat count is 3 when the
  argument is missing and never below 1 when it is given; with a known scenario and the
  policy fifo the program runs that many simulations and exits with code 0.
\<close>

theorem main_cli:
  "(length argv < 3 \<longrightarrow> main atoi qsort argv = Exit 1 [])
   \<and> (3 \<le> length argv \<and> atoi (argv ! 2) \<notin> {1, 2, 3, 4} \<longrightarrow> main atoi qsort argv = Exit 1 [])
   \<and> (3 \<le> length argv \<and> argv ! 1 \<notin> {''fifo'', ''sjf'', ''rr'', ''mlfq''} \<longrightarrow>
        main atoi qsort argv = Exit 1 [])
   \<and> (length argv < 4 \<longrightarrow> repeat_arg atoi argv = 3)
   \<and> (4 \<le> length argv \<longrightarrow> repeat_arg atoi argv = max 1 (atoi (argv ! 3)))
   \<and> (3 \<le> length argv \<and> argv ! 1 = ''fifo'' \<and> make_scenario (atoi (argv ! 2)) = Some base \<longrightarrow>
        main atoi qsort argv = Exit 0 (replicate (nat (repeat_arg atoi argv)) (run_fifo base)))"
proof -
  have r1: "1 \<le> repeat_arg atoi argv"
    by (simp add: repeat_arg_def Let_def)
  have a: "length argv < 3 \<longrightarrow> main atoi qsort argv = Exit 1 []"
    by (simp add: main_def)
  have b: "3 \<le> length argv \<and> atoi (argv ! 2) \<notin> {1, 2, 3, 4} \<longrightarrow> main atoi qsort argv = Exit 1 []"
    by (simp add: main_def make_scenario_def Let_def)
  have c: "3 \<le> length argv \<and> argv ! 1 \<notin> {''fifo'', ''sjf'', ''rr'', ''mlfq''} \<longrightarrow>
        main atoi qsort argv = Exit 1 []"
  proof (intro impI, elim conjE)
    assume l: "3 \<le> length argv" and u: "argv ! 1 \<notin> {''fifo'', ''sjf'', ''rr'', ''mlfq''}"
    from r1 have k: "0 < nat (repeat_arg atoi argv)" by simp
    show "main atoi qsort argv = Exit 1 []"
      using l main_for_unknown [OF u k]
      by (simp add: main_def Let_def split: option.splits)
  qed
  have d: "length argv < 4 \<longrightarrow> repeat_arg atoi argv = 3"
    by (simp add: repeat_arg_def Let_def)
  have e: "4 \<le> length argv \<longrightarrow> repeat_arg atoi argv = max 1 (atoi (argv ! 3))"
    by (simp add: repeat_arg_def Let_def max_def)
  have f: "3 \<le> length argv \<and> argv ! 1 = ''fifo'' \<and> make_scenario (atoi (argv ! 2)) = Some base \<longrightarrow>
        main atoi qsort argv = Exit 0 (replicate (nat (repeat_arg atoi argv)) (run_fifo base))"
    by (simp add: main_def Let_def main_for_fifo)
  from a b c d e f show ?thesis by blast
qed

text \<open>
  The theorem at concrete command lines: one argument only, scenario 7, policy
  \<open>lifo\<close>, no repeat count, and a repeat count of 0.
\<close>

theorem main_cli_witness:
  "length [''simulador'', ''rr''] < 3
   \<and> main atoi_c stable_qsort [''simulador'', ''rr''] = Exit 1 []
   \<and> 3 \<le> length [''simulador'', ''fifo'', ''7'']
   \<and> atoi_c ([''simulador'', ''fifo'', ''7''] ! 2) \<notin> {1, 2, 3, 4}
   \<and> main atoi_c stable_qsort [''simulador'', ''fifo'', ''7''] = Exit 1 []
   \<and> [''simulador'', ''lifo'', ''1''] ! 1 \<notin> {''fifo'', ''sjf'', ''rr'', ''mlfq''}
   \<and> main atoi_c stable_qsort [''simulador'', ''lifo'', ''1''] = Exit 1 []
   \<and> repeat_arg atoi_c [''simulador'', ''fifo'', ''1''] = 3
   \<and> repeat_arg atoi_c [''simulador'', ''fifo'', ''1'', ''0''] = 1
   \<and> make_scenario (atoi_c ([''simulador'', ''fifo'', ''1'', ''0''] ! 2)) = Some make_scenario1
   \<and> main atoi_c stable_qsort [''simulador'', ''fifo'', ''1'', ''0'']
       = Exit 0 [run_fifo make_scenario1]"
proof -
  have h1: "length [''simulador'', ''rr''] < 3" by simp
  have h2: "3 \<le> length [''simulador'', ''fifo'', ''7'']
            \<and> atoi_c ([''simulador'', ''fifo'', ''7''] ! 2) \<notin> {1, 2, 3, 4}"
    by (simp add: atoi_c_def)
  have h3: "3 \<le> length [''simulador'', ''lifo'', ''1'']
            \<and> [''simulador'', ''lifo'', ''1''] ! 1 \<notin> {''fifo'', ''sjf'', ''rr'', ''mlfq''}"
    by simp
  have h4: "length [''simulador'', ''fifo'', ''1''] < 4" by simp
  have h5: "4 \<le> length [''simulador'', ''fifo'', ''1'', ''0'']" by simp
  have h6: "3 \<le> length [''simulador'', ''fifo'', ''1'', ''0'']
            \<and> [''simulador'', ''fifo'', ''1'', ''0''] ! 1 = ''fifo''
            \<and> make_scenario (atoi_c ([''simulador'', ''fifo'', ''1'', ''0''] ! 2)) = Some make_scenario1"
    by (simp add: atoi_c_def make_scenario_def)
  have z: "atoi_c ''0'' = 0" by (simp add: atoi_c_def)
  note m = main_cli [of _ atoi_c stable_qsort]
  from m [of "[''simulador'', ''rr'']"] h1
  have c1: "main atoi_c stable_qsort [''simulador'', ''rr''] = Exit 1 []" by blast
  from m [of "[''simulador'', ''fifo'', ''7'']"] h2
  have c2: "main atoi_c stable_qsort [''simulador'', ''fifo'', ''7''] = Exit 1 []" by blast
  from m [of "[''simulador'', ''lifo'', ''1'']"] h3
  have c3: "main atoi_c stable_qsort [''simulador'', ''lifo'', ''1''] = Exit 1 []" by blast
  from m [of "[''simulador'', ''fifo'', ''1'']"] h4
  have c4: "repeat_arg atoi_c [''simulador'', ''fifo'', ''1''] = 3" by blast
  from m [of "[''simulador'', ''fifo'', ''1'', ''0'']"] h5
  have c5: "repeat_arg atoi_c [''simulador'', ''fifo'', ''1'', ''0''] = 1" by (simp add: z)
  from m [of "[''simulador'', ''fifo'', ''1'', ''0'']" make_scenario1] h6 c5
  have c6: "main atoi_c stable_qsort [''simulador'', ''fifo'', ''1'', ''0'']
       = Exit 0 [run_fifo make_scenario1]" by simp
  from h1 h2 h3 h6 c1 c2 c3 c4 c5 c6 show ?thesis by simp
qed

section \<open>SJF as FIFO on the sorted array\<close>

lemma sjf_while_fifo_while: "sjf_while p t = fifo_while p t"
proof (induction p t rule: fifo_while.induct)
  case (1 p t)
  show ?case
  proof (cases "is_done p")
    case True
    then show ?thesis by (simp add: sjf_while.simps fifo_while.simps)
  next
    case False
    obtain p' taken io_dur where e: "eat_cpu p (remaining p) = (p', taken, io_dur)"
      by (cases "eat_cpu p (remaining p)") auto
    from "1.IH" [OF False e [symmetric] refl] False e show ?thesis
      by (subst sjf_while.simps, subst fifo_while.simps) simp
  qed
qed

lemma sjf_for_fifo_for: "sjf_for ps t res = fifo_for ps t res"
  by (induction ps arbitrary: t res) (simp_all add: sjf_while_fifo_while Let_def)

lemma cmp_total_cpu_le: "cmp_total_cpu a b \<le> 0 \<longleftrightarrow> total_cpu_needed a \<le> total_cpu_needed b"
  by (simp add: cmp_total_cpu_def)

lemma sorted_wrt_cmp_total_cpu:
  "sorted_wrt (\<lambda>a b. cmp_total_cpu a b \<le> 0) ys \<longleftrightarrow> sorted (map total_cpu_needed ys)"
  by (simp add: cmp_total_cpu_le sorted_map)

lemma total_clone_processes [simp]:
  "map total_cpu_needed (clone_processes orig) = map total_cpu_needed orig"
  by (simp add: clone_processes_def)

lemma insert_before_insort_key:
  "insert_before cmp_total_cpu x ys = insort_key total_cpu_needed x ys"
  by (induction ys) (simp_all add: cmp_total_cpu_le)

lemma stable_qsort_sort_key:
  "stable_qsort cmp_total_cpu xs = sort_key total_cpu_needed xs"
  by (induction xs) (simp_all add: stable_qsort_def insert_before_insort_key)

lemma mset_insert_before: "mset (insert_before cmp x ys) = add_mset x (mset ys)"
  by (induction ys) simp_all

lemma mset_stable_qsort: "mset (stable_qsort cmp xs) = mset xs"
  by (induction xs) (simp_all add: stable_qsort_def mset_insert_before)

text \<open>
  With any sorting function in the place of \<^verbatim>\<open>qsort\<close> that returns a rearrangement
  of the cloned array, ascending under \<open>cmp_total_cpu\<close>: the processes run to completion
  in that order as \<open>run_fifo\<close> runs them, the order is ascending by the initial
  \<open>total_cpu_needed\<close>, and when no two demands are equal it is the order of the stable
  sort.
\<close>

lemma run_sjf_any_qsort:
  assumes "qsort_result cmp_total_cpu (clone_processes orig) (qsort cmp_total_cpu (clone_processes orig))"
  shows "run_sjf qsort orig = fifo_for (qsort cmp_total_cpu (clone_processes orig)) 0 []
       \<and> mset (qsort cmp_total_cpu (clone_processes orig)) = mset (clone_processes orig)
       \<and> sorted (map total_cpu_needed (qsort cmp_total_cpu (clone_processes orig)))
       \<and> (distinct (map total_cpu_needed orig) \<longrightarrow>
            qsort cmp_total_cpu (clone_processes orig)
              = sort_key total_cpu_needed (clone_processes orig))"
proof -
  let ?xs = "clone_processes orig" and ?ys = "qsort cmp_total_cpu (clone_processes orig)"
  from assms have m: "mset ?ys = mset ?xs" and s: "sorted (map total_cpu_needed ?ys)"
    by (simp_all add: qsort_result_def sorted_wrt_cmp_total_cpu)
  have r: "run_sjf qsort orig = fifo_for ?ys 0 []"
    by (simp add: run_sjf_def sjf_for_fifo_for)
  have u: "?ys = sort_key total_cpu_needed ?xs" if d: "distinct (map total_cpu_needed orig)"
  proof -
    from d have "distinct (map total_cpu_needed ?xs)" by simp
    then have "inj_on total_cpu_needed (set ?xs)" unfolding distinct_map by (rule conjunct2)
    from sort_key_inj_key_eq [OF m [symmetric] this s] show ?thesis by simp
  qed
  from r m s u show ?thesis by blast
qed

section \<open>MLFQ levels (claim C5)\<close>

lemma new_q_rule:
  "new_q qidx taken = (if QUANTUM - EPS < taken \<and> qidx < 2 then qidx + 1 else qidx)"
proof -
  have "\<bar>taken - QUANTUM\<bar> < 1 / 1000000000 \<or> taken > QUANTUM - 1 / 1000000000
        \<longleftrightarrow> QUANTUM - EPS < taken"
    unfolding EPS_def by linarith
  then show ?thesis
    by (auto simp: new_q_def LEVELS_def)
qed

lemma new_q_bounds: "qidx \<le> new_q qidx taken \<and> (qidx \<le> 2 \<longrightarrow> new_q qidx taken \<le> 2)"
  by (auto simp: new_q_rule)

lemma mlfq_body_queues:
  assumes "eat_cpu (if first_run_time (hd (queues s ! qidx)) < 0
                    then (hd (queues s ! qidx))\<lparr>first_run_time := mlfq_t s\<rparr>
                    else hd (queues s ! qidx)) QUANTUM = (p', taken, io_dur)"
  shows "queues (mlfq_body s qidx) =
           (if is_done p' then (queues s)[qidx := tl (queues s ! qidx)]
            else ((queues s)[qidx := tl (queues s ! qidx)])
                   [new_q qidx taken :=
                      ((queues s)[qidx := tl (queues s ! qidx)]) ! new_q qidx taken @ [p']])"
  using assms by (simp add: mlfq_body_def Let_def split del: if_split) simp

lemma mlfq_init_simps:
  "queues (mlfq_init orig) = [clone_processes orig, [], []]"
  "mlfq_t (mlfq_init orig) = 0"
  "mlfq_res (mlfq_init orig) = []"
  by (simp_all add: mlfq_init_def LEVELS_def numeral_3_eq_3)

lemma mlfq_body_levels:
  assumes len: "length (queues s) = LEVELS"
    and fn: "first_nonempty (queues s) 0 = Some qidx"
    and e: "eat_cpu (if first_run_time (hd (queues s ! qidx)) < 0
                     then (hd (queues s ! qidx))\<lparr>first_run_time := mlfq_t s\<rparr>
                     else hd (queues s ! qidx)) QUANTUM = (p', taken, io_dur)"
  shows "length (queues (mlfq_body s qidx)) = LEVELS"
    and "\<not> is_done p' \<Longrightarrow> l < LEVELS \<Longrightarrow>
           queues (mlfq_body s qidx) ! l =
             (if l = qidx then tl (queues s ! l) else queues s ! l)
             @ (if l = new_q qidx taken then [p'] else [])"
    and "is_done p' \<Longrightarrow> l < LEVELS \<Longrightarrow>
           queues (mlfq_body s qidx) ! l = (if l = qidx then tl (queues s ! l) else queues s ! l)"
    and "qidx \<le> new_q qidx taken" and "new_q qidx taken \<le> 2"
proof -
  from first_nonempty_Some [OF fn] len
  have k: "qidx < LEVELS" by simp
  let ?qs = "(queues s)[qidx := tl (queues s ! qidx)]"
  let ?j = "new_q qidx taken"
  note b = mlfq_body_queues [OF e]
  from k show j2: "?j \<le> 2" and jk: "qidx \<le> ?j"
    using new_q_bounds [of qidx taken] by (simp_all add: LEVELS_def)
  from j2 have jl: "?j < LEVELS" by (simp add: LEVELS_def)
  show "length (queues (mlfq_body s qidx)) = LEVELS"
    using b len by simp
  have base: "?qs ! l = (if l = qidx then tl (queues s ! l) else queues s ! l)" if "l < LEVELS"
    using that len by (simp add: nth_list_update)
  show "queues (mlfq_body s qidx) ! l =
              (if l = qidx then tl (queues s ! l) else queues s ! l)
              @ (if l = ?j then [p'] else [])" if "\<not> is_done p'" "l < LEVELS"
    using that b len base [OF that(2)] jl by (simp add: nth_list_update)
  show "queues (mlfq_body s qidx) ! l =
              (if l = qidx then tl (queues s ! l) else queues s ! l)" if "is_done p'" "l < LEVELS"
    using that b base [OF that(2)] by simp
qed

lemma mlfq_body_no_promotion:
  assumes len: "length (queues s) = LEVELS"
    and fn: "first_nonempty (queues s) 0 = Some qidx"
    and l': "l' < LEVELS" and x: "x \<in> set (queues (mlfq_body s qidx) ! l')"
  shows "\<exists>l \<le> l'. \<exists>y \<in> set (queues s ! l). name y = name x"
proof -
  let ?q = "queues s ! qidx"
  obtain p' taken io_dur where e: "eat_cpu (if first_run_time (hd ?q) < 0
                     then (hd ?q)\<lparr>first_run_time := mlfq_t s\<rparr>
                     else hd ?q) QUANTUM = (p', taken, io_dur)"
    using prod_cases3 by blast
  note lv = mlfq_body_levels [OF len fn e]
  from first_nonempty_Some [OF fn] have ne: "?q \<noteq> []" by simp
  have nm: "name p' = name (hd ?q)"
    using eat_cpu_frame [OF e] by (simp split: if_splits)
  have hdq: "hd ?q \<in> set ?q" using ne by simp
  from x lv(2) [OF _ l'] lv(3) [OF _ l']
  have "x \<in> set (if l' = qidx then tl (queues s ! l') else queues s ! l')
        \<or> (l' = new_q qidx taken \<and> x = p')"
    by (cases "is_done p'") (auto split: if_splits)
  then show ?thesis
  proof
    assume "x \<in> set (if l' = qidx then tl (queues s ! l') else queues s ! l')"
    then have "x \<in> set (queues s ! l')"
      using ne by (auto split: if_splits intro: list.set_sel(2))
    then show ?thesis by blast
  next
    assume "l' = new_q qidx taken \<and> x = p'"
    with lv(4) nm hdq show ?thesis by metis
  qed
qed

lemma mlfq_iterate_no_promotion:
  "length (queues s) = LEVELS \<Longrightarrow> l' < LEVELS \<Longrightarrow> x \<in> set (queues (mlfq_iterate n s) ! l') \<Longrightarrow>
     \<exists>l \<le> l'. \<exists>y \<in> set (queues s ! l). name y = name x"
proof (induction n arbitrary: s l' x)
  case 0
  then show ?case by auto
next
  case (Suc n)
  show ?case
  proof (cases "first_nonempty (queues s) 0")
    case None
    with Suc.prems show ?thesis by auto
  next
    case (Some qidx)
    let ?s1 = "mlfq_body s qidx"
    obtain p' taken io_dur where e: "eat_cpu (if first_run_time (hd (queues s ! qidx)) < 0
                     then (hd (queues s ! qidx))\<lparr>first_run_time := mlfq_t s\<rparr>
                     else hd (queues s ! qidx)) QUANTUM = (p', taken, io_dur)"
      using prod_cases3 by blast
    have len1: "length (queues ?s1) = LEVELS"
      by (rule mlfq_body_levels(1) [OF Suc.prems(1) Some e])
    from Suc.prems(3) Some have "x \<in> set (queues (mlfq_iterate n ?s1) ! l')" by simp
    from Suc.IH [OF len1 Suc.prems(2) this]
    obtain l1 y1 where l1: "l1 \<le> l'" and y1: "y1 \<in> set (queues ?s1 ! l1)" and n1: "name y1 = name x"
      by blast
    from l1 Suc.prems(2) have "l1 < LEVELS" by simp
    from mlfq_body_no_promotion [OF Suc.prems(1) Some this y1]
    obtain l y where "l \<le> l1" "y \<in> set (queues s ! l)" "name y = name y1" by blast
    with l1 n1 show ?thesis by (metis order_trans)
  qed
qed

text \<open>The run of MLFQ is one of these partial runs.\<close>

lemma mlfq_while_iterate: "\<exists>n. mlfq_while s = mlfq_iterate n s"
proof (induction s rule: mlfq_while.induct)
  case (1 s)
  show ?case
  proof (cases "first_nonempty (queues s) 0")
    case None
    then have "mlfq_while s = mlfq_iterate 0 s" by (simp add: mlfq_while.simps)
    then show ?thesis by blast
  next
    case (Some qidx)
    from "1.IH" [OF Some] obtain n where "mlfq_while (mlfq_body s qidx) = mlfq_iterate n (mlfq_body s qidx)"
      by blast
    with Some have "mlfq_while s = mlfq_iterate (Suc n) s" by (simp add: mlfq_while.simps)
    then show ?thesis by blast
  qed
qed

text \<open>
  Claim C5, as the code has it. In a state with three levels, let \<open>qidx\<close> be the level
  the loop selects, and \<open>p'\<close>, \<open>taken\<close> the outcome of the consumption step of its
  head. If \<open>p'\<close> is not done it is appended to level \<open>new_q qidx taken\<close>, which is
  \<open>qidx + 1\<close> exactly when \<open>taken > QUANTUM - EPS\<close> and \<open>qidx < 2\<close>, and \<open>qidx\<close>
  otherwise; the comparison is strict, so a step of exactly \<open>QUANTUM - EPS\<close> keeps the
  level. If \<open>p'\<close> is done it leaves the queues. Every other process keeps its level and
  its place. The new level is never above the old one in priority and never beyond
  level 2. Over any number of iterations, every process found at a level was at that
  level or at a lower-numbered one at the start: no process is ever promoted.
\<close>

theorem mlfq_level_rule:
  assumes len: "length (queues s) = LEVELS"
    and fn: "first_nonempty (queues s) 0 = Some qidx"
    and e: "eat_cpu (if first_run_time (hd (queues s ! qidx)) < 0
                     then (hd (queues s ! qidx))\<lparr>first_run_time := mlfq_t s\<rparr>
                     else hd (queues s ! qidx)) QUANTUM = (p', taken, io_dur)"
  shows "(\<not> is_done p' \<longrightarrow>
            new_q qidx taken = (if QUANTUM - EPS < taken \<and> qidx < 2 then qidx + 1 else qidx)
            \<and> (\<forall>l < LEVELS. queues (mlfq_body s qidx) ! l =
                  (if l = qidx then tl (queues s ! l) else queues s ! l)
                  @ (if l = new_q qidx taken then [p'] else [])))
       \<and> (is_done p' \<longrightarrow>
            (\<forall>l < LEVELS. queues (mlfq_body s qidx) ! l =
                  (if l = qidx then tl (queues s ! l) else queues s ! l)))
       \<and> qidx \<le> new_q qidx taken \<and> new_q qidx taken \<le> 2
       \<and> (\<forall>n. \<forall>l' < LEVELS. \<forall>x \<in> set (queues (mlfq_iterate n s) ! l').
             \<exists>l \<le> l'. \<exists>y \<in> set (queues s ! l). name y = name x)"
proof -
  note lv = mlfq_body_levels [OF len fn e]
  have a: "\<not> is_done p' \<longrightarrow>
            new_q qidx taken = (if QUANTUM - EPS < taken \<and> qidx < 2 then qidx + 1 else qidx)
            \<and> (\<forall>l < LEVELS. queues (mlfq_body s qidx) ! l =
                  (if l = qidx then tl (queues s ! l) else queues s ! l)
                  @ (if l = new_q qidx taken then [p'] else []))"
    using lv(2) new_q_rule [of qidx taken] by blast
  have b: "is_done p' \<longrightarrow>
            (\<forall>l < LEVELS. queues (mlfq_body s qidx) ! l =
                  (if l = qidx then tl (queues s ! l) else queues s ! l))"
    using lv(3) by blast
  have c: "\<forall>n. \<forall>l' < LEVELS. \<forall>x \<in> set (queues (mlfq_iterate n s) ! l').
             \<exists>l \<le> l'. \<exists>y \<in> set (queues s ! l). name y = name x"
    using mlfq_iterate_no_promotion [OF len] by blast
  show ?thesis
    by (rule conjI [OF a conjI [OF b conjI [OF lv(4) conjI [OF lv(5) c]]]])
qed

text \<open>
  Claim C5 as it is stated demotes a process whenever \<open>taken \<ge> QUANTUM - EPS\<close>. The
  process \<open>edge_io_def\<close> consumes exactly \<open>QUANTUM - EPS\<close> in its first turn (its I/O
  event cuts the quantum there), is not done, was at level 0, and is put back into
  level 0.
\<close>

theorem mlfq_demotion_counterexample:
  "first_nonempty (queues (mlfq_init [edge_io_def])) 0 = Some 0
   \<and> QUANTUM - EPS
       \<le> fst (snd (eat_cpu ((hd (clone_processes [edge_io_def]))\<lparr>first_run_time := 0\<rparr>) QUANTUM))
   \<and> \<not> is_done (fst (eat_cpu ((hd (clone_processes [edge_io_def]))\<lparr>first_run_time := 0\<rparr>) QUANTUM))
   \<and> map (map name) (queues (mlfq_body (mlfq_init [edge_io_def]) 0)) = [[''P''], [], []]"
  by (simp add: mlfq_init_simps mlfq_body_def LEVELS_def edge_io_def_def clone_processes_def
      new_process_def io_def eat_cpu_def io_count_def is_done_def new_q_def EPS_def QUANTUM_def
      Let_def)

text \<open>
  The theorem at the first turn of scenario 1: A uses its whole quantum, is not done, and
  moves from level 0 to level 1, while B and C stay at level 0.
\<close>

theorem mlfq_level_rule_witness:
  "length (queues (mlfq_init make_scenario1)) = LEVELS
   \<and> first_nonempty (queues (mlfq_init make_scenario1)) 0 = Some 0
   \<and> eat_cpu (if first_run_time (hd (queues (mlfq_init make_scenario1) ! 0)) < 0
               then (hd (queues (mlfq_init make_scenario1) ! 0))
                      \<lparr>first_run_time := mlfq_t (mlfq_init make_scenario1)\<rparr>
               else hd (queues (mlfq_init make_scenario1) ! 0)) QUANTUM
       = ((hd (clone_processes make_scenario1))
            \<lparr>first_run_time := 0, cpu_consumed := 1 / 2, remaining := 19 / 2\<rparr>, 1 / 2, - 1)
   \<and> \<not> is_done ((hd (clone_processes make_scenario1))
            \<lparr>first_run_time := 0, cpu_consumed := 1 / 2, remaining := 19 / 2\<rparr>)
   \<and> new_q 0 (1 / 2) = 1
   \<and> map (map name) (queues (mlfq_body (mlfq_init make_scenario1) 0)) = [[''B'', ''C''], [''A''], []]"
proof -
  let ?s = "mlfq_init make_scenario1"
  let ?p = "(hd (clone_processes make_scenario1))
            \<lparr>first_run_time := 0, cpu_consumed := 1 / 2, remaining := 19 / 2\<rparr>"
  have h1: "length (queues ?s) = LEVELS"
    by (simp add: mlfq_init_simps LEVELS_def)
  have h2: "first_nonempty (queues ?s) 0 = Some 0"
    by (simp add: mlfq_init_simps make_scenario1_def clone_processes_def)
  have h3: "eat_cpu (if first_run_time (hd (queues ?s ! 0)) < 0
               then (hd (queues ?s ! 0))\<lparr>first_run_time := mlfq_t ?s\<rparr>
               else hd (queues ?s ! 0)) QUANTUM = (?p, 1 / 2, - 1)"
    by (simp add: mlfq_init_simps make_scenario1_def clone_processes_def
        new_process_def eat_cpu_def io_count_def QUANTUM_def Let_def)
  have h4: "\<not> is_done ?p"
    by (simp add: is_done_def EPS_def)
  have q: "QUANTUM - EPS < 1 / 2" by (simp add: QUANTUM_def EPS_def)
  from mlfq_level_rule [OF h1 h2 h3] h4 q
  have n: "new_q 0 (1 / 2) = 1" by simp
  from mlfq_level_rule [OF h1 h2 h3] h4
  have l: "\<forall>l < LEVELS. queues (mlfq_body ?s 0) ! l =
             (if l = 0 then tl (queues ?s ! l) else queues ?s ! l)
             @ (if l = new_q 0 (1 / 2) then [?p] else [])"
    by blast
  have "length (queues (mlfq_body ?s 0)) = 3"
    using mlfq_body_queues [OF h3] h1 by (simp add: LEVELS_def)
  then have "queues (mlfq_body ?s 0)
       = [queues (mlfq_body ?s 0) ! 0, queues (mlfq_body ?s 0) ! 1, queues (mlfq_body ?s 0) ! 2]"
    by (cases "queues (mlfq_body ?s 0)" rule: list.exhaust)
       (auto simp: length_Suc_conv numeral_3_eq_3)
  with l n have "map (map name) (queues (mlfq_body ?s 0)) = [[''B'', ''C''], [''A''], []]"
    by (simp add: LEVELS_def mlfq_init_simps make_scenario1_def clone_processes_def new_process_def)
  with h1 h2 h3 h4 n show ?thesis by simp
qed

section \<open>Round-Robin and its queue array (claims C4 and C7)\<close>

lemmas rr_eval = run_rr_def rr_init_def rr_while.simps rr_body_def clone_processes_def
  new_process_def io_def eat_cpu_def io_count_def is_done_def EPS_def QUANTUM_def Let_def

text \<open>
  One iteration, by the outcome of its consumption step: a process that is not done goes
  to the tail of the queue when the array has a free slot, and the write is out of
  bounds when it has none; a process that is done has its record stored and is not put
  back.
\<close>

lemma rr_body_eq:
  assumes "eat_cpu (if first_run_time (rr_queue s ! rr_qstart s) < 0
                    then (rr_queue s ! rr_qstart s)\<lparr>first_run_time := rr_t s\<rparr>
                    else rr_queue s ! rr_qstart s) QUANTUM = (p', taken, io_dur)"
  shows "rr_body cap s =
     (if \<not> is_done p' then
        (if length (rr_queue s) < cap then
           Inr (s\<lparr>rr_queue := rr_queue s @ [p'], rr_qstart := rr_qstart s + 1,
                  rr_t := (if 0 \<le> io_dur then rr_t s + taken + io_dur else rr_t s + taken)\<rparr>)
         else Inl QueueOverflow)
      else
        Inr (s\<lparr>rr_qstart := rr_qstart s + 1,
               rr_t := (if 0 \<le> io_dur then rr_t s + taken + io_dur else rr_t s + taken),
               rr_res := store_result (rr_res s)
                 (p'\<lparr>finish_time := (if 0 \<le> io_dur then rr_t s + taken + io_dur
                                       else rr_t s + taken)\<rparr>)\<rparr>))"
  using assms by (simp add: rr_body_def Let_def split del: if_split)

text \<open>
  Claim C7 says that every policy run on a valid scenario terminates with one record per
  process. Under Round-Robin the queue array has \<^verbatim>\<open>n * 2\<close> slots and
  \<^verbatim>\<open>qend\<close> only grows, so the run needs one slot per turn of a process. On each of
  the four built-in scenarios the array is full before any process is done, and the next
  re-enqueue writes past its end.
\<close>

theorem run_rr_overflow:
  "run_rr make_scenario1 = Inl QueueOverflow
   \<and> run_rr make_scenario2 = Inl QueueOverflow
   \<and> run_rr make_scenario3 = Inl QueueOverflow
   \<and> run_rr make_scenario4 = Inl QueueOverflow"
  by (simp add: rr_eval make_scenario1_def make_scenario2_def make_scenario3_def make_scenario4_def)

text \<open>
  Claim C4 says that a process that is not done is re-enqueued at the tail of the queue
  in every iteration. That holds of an iteration only while the array has a free slot.
  On scenario 1 the first three iterations do so: A, B and C have
  each used one quantum, are back in the queue, and the six slots are full. In the
  fourth iteration A has used its second quantum, is not done, and
  \<^verbatim>\<open>queue[qend++] = p\<close> writes slot 6 of a six-slot array.
\<close>

theorem rr_fourth_turn_overflow:
  "(case rr_iterate 6 3 (rr_init make_scenario1) of
      Inl e \<Rightarrow> False
    | Inr s \<Rightarrow> rr_qstart s = 3 \<and> map name (rr_queue s) = [''A'', ''B'', ''C'', ''A'', ''B'', ''C'']
               \<and> map remaining (drop 3 (rr_queue s)) = [19 / 2, 29 / 2, 39 / 2]
               \<and> rr_t s = 3 / 2 \<and> rr_res s = [])
   \<and> rr_iterate 6 4 (rr_init make_scenario1) = Inl QueueOverflow"
  by (simp add: rr_eval make_scenario1_def numeral_3_eq_3 eval_nat_numeral)

section \<open>The invariants are kept\<close>

lemma proc_inv_mono: "proc_inv orig t p \<Longrightarrow> t \<le> t' \<Longrightarrow> proc_inv orig t' p"
  by (auto simp: proc_inv_def)

lemma proc_inv_first_run:
  "proc_inv orig t p \<Longrightarrow>
   proc_inv orig t (if first_run_time p < 0 then p\<lparr>first_run_time := t\<rparr> else p)"
  by (auto simp: proc_inv_def)

lemma proc_inv_eat:
  assumes i: "proc_inv orig t p" and dt: "0 \<le> dt" and e: "eat_cpu p dt = (p', taken, io_dur)"
  shows "t \<le> (if 0 \<le> io_dur then t + taken + io_dur else t + taken)
       \<and> proc_inv orig (if 0 \<le> io_dur then t + taken + io_dur else t + taken) p'"
proof -
  from i have r: "0 \<le> remaining p" by (simp add: proc_inv_def)
  note b = eat_cpu_taken_bounds [OF e dt r]
  note f = eat_cpu_frame [OF e] and rm = eat_cpu_remaining [OF e] and c = eat_cpu_consumed [OF e]
  have m: "t \<le> (if 0 \<le> io_dur then t + taken + io_dur else t + taken)"
    using b by simp
  have "proc_inv orig t p'"
    using i b f rm c unfolding proc_inv_def by simp
  from m proc_inv_mono [OF this m] show ?thesis by simp
qed

lemma res_ok_done:
  assumes i: "proc_inv orig t p" and t: "0 \<le> t" and d: "is_done p"
  shows "res_ok orig ((fill_result blank_result (p\<lparr>finish_time := t\<rparr>))\<lparr>rname := name p\<rparr>)
       \<and> Elapsed ((fill_result blank_result (p\<lparr>finish_time := t\<rparr>))\<lparr>rname := name p\<rparr>) = t"
proof -
  from i obtain d' where d': "d' \<in> set orig" "name d' = name p"
      "total_cpu_needed d' = total_cpu_needed p"
    by (auto simp: proc_inv_def)
  from i d have c: "total_cpu_needed p - EPS \<le> cpu_consumed p" "cpu_consumed p \<le> total_cpu_needed p"
    by (simp_all add: proc_inv_def is_done_def)
  from i have f: "first_run_time p \<le> t" by (simp add: proc_inv_def)
  have "\<exists>d \<in> set orig. name p = name d
          \<and> total_cpu_needed d - EPS \<le> cpu_consumed p \<and> cpu_consumed p \<le> total_cpu_needed d"
    using d' c by (intro bexI [of _ d']) simp_all
  then show ?thesis
    unfolding res_ok_def using f t
    by (simp add: fill_result_def blank_result_def)
qed

lemma proc_inv_clone:
  assumes "\<forall>d \<in> set orig. 0 \<le> total_cpu_needed d" and "p \<in> set (clone_processes orig)"
  shows "proc_inv orig 0 p"
  using assms by (auto simp: proc_inv_def clone_processes_def)

lemma results_inv_mono: "results_inv orig t res \<Longrightarrow> t \<le> t' \<Longrightarrow> results_inv orig t' res"
  by (fastforce simp: results_inv_def)

lemma results_inv_store:
  assumes r: "results_inv orig t res" and le: "t \<le> t'" and t': "0 \<le> t'"
    and i: "proc_inv orig t' p" and d: "is_done p"
  shows "results_inv orig t' (store_result res (p\<lparr>finish_time := t'\<rparr>))"
proof -
  let ?r = "(fill_result blank_result (p\<lparr>finish_time := t'\<rparr>))\<lparr>rname := name p\<rparr>"
  from res_ok_done [OF i t' d] have ok: "res_ok orig ?r" and el: "Elapsed ?r = t'" by simp_all
  from r le have old: "\<forall>x \<in> set res. res_ok orig x \<and> Elapsed x \<le> t'" and s: "sorted (map Elapsed res)"
    by (auto simp: results_inv_def)
  have "sorted (map Elapsed (res @ [?r]))"
    using s old el by (simp add: sorted_append)
  with old ok el show ?thesis
    by (simp add: results_inv_def store_result_def)
qed

lemma results_inv_Nil: "results_inv orig t []"
  by (simp add: results_inv_def)

lemma fifo_while_inv:
  "proc_inv orig t p \<Longrightarrow> fifo_while p t = (p', t') \<Longrightarrow>
     t \<le> t' \<and> proc_inv orig t' p' \<and> is_done p'"
proof (induction p t rule: fifo_while.induct)
  case (1 p t)
  show ?case
  proof (cases "is_done p")
    case True
    with "1.prems" show ?thesis by (simp add: fifo_while.simps)
  next
    case False
    obtain p2 taken io_dur where e: "eat_cpu p (remaining p) = (p2, taken, io_dur)"
      by (cases "eat_cpu p (remaining p)") auto
    let ?t2 = "if 0 \<le> io_dur then t + taken + io_dur else t + taken"
    from "1.prems"(1) have "0 \<le> remaining p" by (simp add: proc_inv_def)
    from proc_inv_eat [OF "1.prems"(1) this e]
    have m: "t \<le> ?t2" and i2: "proc_inv orig ?t2 p2" by simp_all
    from "1.prems"(2) False e have w: "fifo_while p2 ?t2 = (p', t')"
      by (subst (asm) fifo_while.simps) simp
    from "1.IH" [OF False e [symmetric] refl i2 w] m show ?thesis by simp
  qed
qed

lemma fifo_for_inv:
  "(\<forall>p \<in> set ps. proc_inv orig t p) \<Longrightarrow> 0 \<le> t \<Longrightarrow> results_inv orig t res \<Longrightarrow>
     \<exists>T. results_inv orig T (fifo_for ps t res)"
proof (induction ps arbitrary: t res)
  case Nil
  then show ?case by auto
next
  case (Cons p ps)
  let ?p1 = "if first_run_time p < 0 then p\<lparr>first_run_time := t\<rparr> else p"
  obtain p2 t2 where w: "fifo_while ?p1 t = (p2, t2)"
    by (cases "fifo_while ?p1 t") auto
  from Cons.prems(1) have "proc_inv orig t ?p1"
    using proc_inv_first_run [of orig t p] by simp
  from fifo_while_inv [OF this w]
  have m: "t \<le> t2" and i2: "proc_inv orig t2 p2" and d: "is_done p2" by simp_all
  from m Cons.prems(2) have t2: "0 \<le> t2" by simp
  have r: "results_inv orig t2 (store_result res (p2\<lparr>finish_time := t2\<rparr>))"
    by (rule results_inv_store [OF Cons.prems(3) m t2 i2 d])
  have "\<forall>q \<in> set ps. proc_inv orig t2 q"
    using Cons.prems(1) m by (auto intro: proc_inv_mono)
  from Cons.IH [OF this t2 r] w show ?case
    by (simp add: Let_def split del: if_split)
qed

lemma length_fifo_for: "length (fifo_for ps t res) = length ps + length res"
  by (induction ps arbitrary: t res) (simp_all add: Let_def store_result_def split: prod.splits)

lemma rr_body_inv:
  assumes inv: "rr_inv orig s" and lt: "rr_qstart s < length (rr_queue s)"
    and b: "rr_body cap s = Inr s'"
  shows "rr_inv orig s' \<and> rr_t s \<le> rr_t s'
       \<and> (rr_res s' = rr_res s \<or> (\<exists>r. rr_res s' = rr_res s @ [r] \<and> Elapsed r = rr_t s'))"
proof -
  let ?p = "rr_queue s ! rr_qstart s"
  let ?p1 = "if first_run_time ?p < 0 then ?p\<lparr>first_run_time := rr_t s\<rparr> else ?p"
  obtain p2 taken io_dur where e: "eat_cpu ?p1 QUANTUM = (p2, taken, io_dur)"
    by (cases "eat_cpu ?p1 QUANTUM") auto
  let ?t = "if 0 \<le> io_dur then rr_t s + taken + io_dur else rr_t s + taken"
  from inv lt have "proc_inv orig (rr_t s) ?p" by (simp add: rr_inv_def)
  then have "proc_inv orig (rr_t s) ?p1" using proc_inv_first_run [of orig "rr_t s" ?p] by simp
  from proc_inv_eat [OF this _ e]
  have m: "rr_t s \<le> ?t" and i2: "proc_inv orig ?t p2" by (simp_all add: QUANTUM_def)
  from inv m have t0: "0 \<le> ?t" by (simp add: rr_inv_def)
  from inv m have q: "\<forall>x \<in> set (rr_queue s). proc_inv orig ?t x"
    by (auto simp: rr_inv_def intro: proc_inv_mono)
  from inv have r: "results_inv orig (rr_t s) (rr_res s)" by (simp add: rr_inv_def)
  note eq = rr_body_eq [OF e, of cap]
  show ?thesis
  proof (cases "is_done p2")
    case True
    with eq b have s': "s' = s\<lparr>rr_qstart := rr_qstart s + 1, rr_t := ?t,
        rr_res := store_result (rr_res s) (p2\<lparr>finish_time := ?t\<rparr>)\<rparr>"
      by simp
    from results_inv_store [OF r m t0 i2 True] res_ok_done [OF i2 t0 True]
    show ?thesis
      unfolding s' rr_inv_def using q t0 m by (simp add: store_result_def)
  next
    case False
    with eq b have s': "s' = s\<lparr>rr_queue := rr_queue s @ [p2], rr_qstart := rr_qstart s + 1, rr_t := ?t\<rparr>"
      by (simp split: if_splits)
    from results_inv_mono [OF r m]
    show ?thesis
      unfolding s' rr_inv_def using q t0 m i2 by simp
  qed
qed

lemma rr_while_inv:
  "rr_inv orig s \<Longrightarrow> rr_while cap s = Inr s' \<Longrightarrow> rr_inv orig s' \<and> rr_t s \<le> rr_t s'"
proof (induction cap s rule: rr_while.induct)
  case (1 cap s)
  show ?case
  proof (cases "rr_qstart s < length (rr_queue s)")
    case False
    with "1.prems" show ?thesis by (simp add: rr_while.simps)
  next
    case True
    with "1.prems"(2) obtain s1 where b: "rr_body cap s = Inr s1" and w: "rr_while cap s1 = Inr s'"
      by (subst (asm) rr_while.simps) (auto split: sum.splits)
    from rr_body_inv [OF "1.prems"(1) True b]
    have i1: "rr_inv orig s1" and m: "rr_t s \<le> rr_t s1" by simp_all
    from "1.IH" [OF True b i1 w] m show ?thesis by simp
  qed
qed

lemma rr_init_inv:
  assumes "\<forall>d \<in> set orig. 0 \<le> total_cpu_needed d"
  shows "rr_inv orig (rr_init orig)"
  using proc_inv_clone [OF assms] by (simp add: rr_inv_def rr_init_def results_inv_Nil)

lemma mlfq_body_eq:
  assumes "eat_cpu (if first_run_time (hd (queues s ! qidx)) < 0
                    then (hd (queues s ! qidx))\<lparr>first_run_time := mlfq_t s\<rparr>
                    else hd (queues s ! qidx)) QUANTUM = (p', taken, io_dur)"
  shows "mlfq_body s qidx =
     (if is_done p' then
        s\<lparr>queues := (queues s)[qidx := tl (queues s ! qidx)],
          mlfq_t := (if 0 \<le> io_dur then mlfq_t s + taken + io_dur else mlfq_t s + taken),
          mlfq_res := store_result (mlfq_res s)
            (p'\<lparr>finish_time := (if 0 \<le> io_dur then mlfq_t s + taken + io_dur
                                  else mlfq_t s + taken)\<rparr>)\<rparr>
      else
        s\<lparr>queues := ((queues s)[qidx := tl (queues s ! qidx)])
                       [new_q qidx taken :=
                          ((queues s)[qidx := tl (queues s ! qidx)]) ! new_q qidx taken @ [p']],
          mlfq_t := (if 0 \<le> io_dur then mlfq_t s + taken + io_dur else mlfq_t s + taken)\<rparr>)"
  using assms by (simp add: mlfq_body_def Let_def split del: if_split)

lemma in_update_tl:
  assumes "q \<in> set (qs[k := tl (qs ! k)])" and "x \<in> set q" and "k < length qs"
  shows "\<exists>q' \<in> set qs. x \<in> set q'"
proof -
  from assms(1) set_update_subset_insert [of qs k "tl (qs ! k)"]
  have "q = tl (qs ! k) \<or> q \<in> set qs" by auto
  then show ?thesis
  proof
    assume "q = tl (qs ! k)"
    with assms(2) have "x \<in> set (qs ! k)"
      by (cases "qs ! k") simp_all
    with assms(3) show ?thesis by (auto intro: nth_mem)
  next
    assume "q \<in> set qs"
    with assms(2) show ?thesis by blast
  qed
qed

lemma in_update_append:
  assumes "q \<in> set (qs[j := qs ! j @ [p]])" and "x \<in> set q"
  shows "x = p \<or> (\<exists>q' \<in> set qs. x \<in> set q')"
proof (cases "j < length qs")
  case True
  from assms(1) set_update_subset_insert [of qs j "qs ! j @ [p]"]
  have "q = qs ! j @ [p] \<or> q \<in> set qs" by auto
  with assms(2) True show ?thesis by (auto intro: nth_mem)
next
  case False
  with assms show ?thesis by (auto simp: list_update_beyond)
qed

lemma mlfq_body_inv:
  assumes inv: "mlfq_inv orig s" and fn: "first_nonempty (queues s) 0 = Some qidx"
  shows "mlfq_inv orig (mlfq_body s qidx) \<and> mlfq_t s \<le> mlfq_t (mlfq_body s qidx)
       \<and> (mlfq_res (mlfq_body s qidx) = mlfq_res s
          \<or> (\<exists>r. mlfq_res (mlfq_body s qidx) = mlfq_res s @ [r]
                  \<and> Elapsed r = mlfq_t (mlfq_body s qidx)))"
proof -
  from first_nonempty_Some [OF fn]
  have k: "qidx < length (queues s)" and ne: "queues s ! qidx \<noteq> []" by simp_all
  let ?q = "queues s ! qidx"
  let ?p = "hd ?q"
  let ?p1 = "if first_run_time ?p < 0 then ?p\<lparr>first_run_time := mlfq_t s\<rparr> else ?p"
  let ?qs = "(queues s)[qidx := tl ?q]"
  obtain p2 taken io_dur where e: "eat_cpu ?p1 QUANTUM = (p2, taken, io_dur)"
    by (cases "eat_cpu ?p1 QUANTUM") auto
  let ?t = "if 0 \<le> io_dur then mlfq_t s + taken + io_dur else mlfq_t s + taken"
  from k ne have "?q \<in> set (queues s)" "?p \<in> set ?q" by simp_all
  with inv have "proc_inv orig (mlfq_t s) ?p" by (auto simp: mlfq_inv_def)
  then have "proc_inv orig (mlfq_t s) ?p1"
    using proc_inv_first_run [of orig "mlfq_t s" ?p] by simp
  from proc_inv_eat [OF this _ e]
  have m: "mlfq_t s \<le> ?t" and i2: "proc_inv orig ?t p2" by (simp_all add: QUANTUM_def)
  from inv m have t0: "0 \<le> ?t" by (simp add: mlfq_inv_def)
  from inv have r: "results_inv orig (mlfq_t s) (mlfq_res s)" by (simp add: mlfq_inv_def)
  have old: "proc_inv orig ?t x" if "q \<in> set (queues s)" "x \<in> set q" for q x
  proof -
    from inv that have "proc_inv orig (mlfq_t s) x" by (simp add: mlfq_inv_def)
    from proc_inv_mono [OF this m] show ?thesis .
  qed
  have q1: "proc_inv orig ?t x" if "q \<in> set ?qs" "x \<in> set q" for q x
    using in_update_tl [OF that k] old by blast
  note eq = mlfq_body_eq [OF e]
  show ?thesis
  proof (cases "is_done p2")
    case True
    from results_inv_store [OF r m t0 i2 True] res_ok_done [OF i2 t0 True]
    show ?thesis
      unfolding eq mlfq_inv_def using True q1 t0 m by (simp add: store_result_def)
  next
    case False
    have q2: "proc_inv orig ?t x"
      if "q \<in> set (?qs[new_q qidx taken := ?qs ! new_q qidx taken @ [p2]])" "x \<in> set q" for q x
      using in_update_append [OF that] q1 i2 by blast
    from results_inv_mono [OF r m]
    show ?thesis
      unfolding eq mlfq_inv_def using False q2 t0 m by simp
  qed
qed

lemma mlfq_while_inv:
  "mlfq_inv orig s \<Longrightarrow> mlfq_inv orig (mlfq_while s) \<and> mlfq_t s \<le> mlfq_t (mlfq_while s)"
proof (induction s rule: mlfq_while.induct)
  case (1 s)
  show ?case
  proof (cases "first_nonempty (queues s) 0")
    case None
    with "1.prems" show ?thesis by (simp add: mlfq_while.simps)
  next
    case (Some qidx)
    from mlfq_body_inv [OF "1.prems" Some]
    have i1: "mlfq_inv orig (mlfq_body s qidx)" and m: "mlfq_t s \<le> mlfq_t (mlfq_body s qidx)"
      by simp_all
    from "1.IH" [OF Some i1] m Some show ?thesis
      by (subst (1 2) mlfq_while.simps) simp
  qed
qed

lemma mlfq_init_inv:
  assumes "\<forall>d \<in> set orig. 0 \<le> total_cpu_needed d"
  shows "mlfq_inv orig (mlfq_init orig)"
  using proc_inv_clone [OF assms]
  by (simp add: mlfq_inv_def mlfq_init_simps results_inv_Nil)

lemma policy_results:
  assumes v: "\<forall>d \<in> set orig. 0 \<le> total_cpu_needed d"
    and q: "mset (qsort cmp_total_cpu (clone_processes orig)) = mset (clone_processes orig)"
  shows "(\<exists>T. results_inv orig T (run_fifo orig))
       \<and> (\<exists>T. results_inv orig T (run_sjf qsort orig))
       \<and> (\<forall>res. run_rr orig = Inr res \<longrightarrow> (\<exists>T. results_inv orig T res))
       \<and> (\<exists>T. results_inv orig T (run_mlfq orig))"
proof -
  have c: "\<forall>p \<in> set (clone_processes orig). proc_inv orig 0 p"
    using proc_inv_clone [OF v] by blast
  have f: "\<exists>T. results_inv orig T (run_fifo orig)"
    unfolding run_fifo_def by (rule fifo_for_inv [OF c _ results_inv_Nil]) simp
  from q have "set (qsort cmp_total_cpu (clone_processes orig)) = set (clone_processes orig)"
    by (rule mset_eq_setD)
  with c have "\<forall>p \<in> set (qsort cmp_total_cpu (clone_processes orig)). proc_inv orig 0 p"
    by simp
  then have j: "\<exists>T. results_inv orig T (run_sjf qsort orig)"
    unfolding run_sjf_def sjf_for_fifo_for by (rule fifo_for_inv [OF _ _ results_inv_Nil]) simp
  have r: "\<exists>T. results_inv orig T res" if "run_rr orig = Inr res" for res
  proof -
    from that obtain s' where w: "rr_while (length orig * 2) (rr_init orig) = Inr s'"
      and res: "res = rr_res s'"
      by (auto simp: run_rr_def split: sum.splits)
    from rr_while_inv [OF rr_init_inv [OF v] w] res show ?thesis
      by (auto simp: rr_inv_def)
  qed
  from mlfq_while_inv [OF mlfq_init_inv [OF v]]
  have m: "\<exists>T. results_inv orig T (run_mlfq orig)"
    by (auto simp: mlfq_inv_def run_mlfq_def)
  from f j r m show ?thesis by blast
qed

lemma fifo_for_step:
  assumes t: "0 \<le> t" and i: "proc_inv orig t p"
  shows "\<exists>r t'. t \<le> t' \<and> Elapsed r = t' \<and> fifo_for (p # ps) t res = fifo_for ps t' (res @ [r])"
proof -
  let ?p1 = "if first_run_time p < 0 then p\<lparr>first_run_time := t\<rparr> else p"
  obtain p2 t2 where w: "fifo_while ?p1 t = (p2, t2)"
    by (cases "fifo_while ?p1 t") auto
  from i have "proc_inv orig t ?p1"
    using proc_inv_first_run [of orig t p] by simp
  from fifo_while_inv [OF this w]
  have m: "t \<le> t2" and i2: "proc_inv orig t2 p2" and d: "is_done p2" by simp_all
  from m t have t2: "0 \<le> t2" by simp
  let ?r = "(fill_result blank_result (p2\<lparr>finish_time := t2\<rparr>))\<lparr>rname := name p2\<rparr>"
  from res_ok_done [OF i2 t2 d] have el: "Elapsed ?r = t2" by simp
  have "fifo_for (p # ps) t res = fifo_for ps t2 (res @ [?r])"
    using w by (simp add: Let_def store_result_def split del: if_split)
  with m el show ?thesis by blast
qed

lemma eat_cpu_clock:
  assumes "proc_inv orig t p" and "0 \<le> dt" and "eat_cpu p dt = (p', taken, io_dur)"
  shows "0 \<le> taken \<and> t \<le> (if 0 \<le> io_dur then t + taken + io_dur else t + taken)"
proof -
  from assms(1) have "0 \<le> remaining p" by (simp add: proc_inv_def)
  from eat_cpu_taken_bounds [OF assms(3) assms(2) this] show ?thesis by simp
qed

lemma scenario3_demands: "\<forall>d \<in> set make_scenario3. 0 \<le> total_cpu_needed d"
  by (simp add: make_scenario3_def new_process_def)

section \<open>The clock and the first run (claim C8)\<close>

text \<open>
  Claim C8. Let every demand of \<open>orig\<close> be non-negative, as in every valid scenario, and
  let \<^verbatim>\<open>qsort\<close> return a rearrangement of its input. Then under each policy every
  record has \<open>0 \<le> FirstRun \<le> Elapsed\<close>, and the finish times of the records, in the
  order they are emitted, do not decrease (for Round-Robin: when the run returns). Step
  by step: a consumption step of a process of the run takes \<open>taken \<ge> 0\<close> and leaves the
  clock, advanced by \<open>taken\<close> and then by the I/O duration when one is reported, not
  below its value before. FIFO and SJF take a process at clock \<open>t\<close>, hand the clock on at
  some \<open>t' \<ge> t\<close>, and emit one record whose finish time is \<open>t'\<close>. The states of
  Round-Robin and MLFQ satisfy their invariant at the start, and every iteration from a
  state with the invariant keeps it, does not lower the clock, and emits at most one
  record, whose finish time is the clock after that iteration.
\<close>

theorem clock_monotone:
  assumes v: "\<forall>d \<in> set orig. 0 \<le> total_cpu_needed d"
    and q: "mset (qsort cmp_total_cpu (clone_processes orig)) = mset (clone_processes orig)"
  shows "((\<forall>r \<in> set (run_fifo orig). 0 \<le> FirstRun r \<and> FirstRun r \<le> Elapsed r)
          \<and> sorted (map Elapsed (run_fifo orig)))
       \<and> ((\<forall>r \<in> set (run_sjf qsort orig). 0 \<le> FirstRun r \<and> FirstRun r \<le> Elapsed r)
          \<and> sorted (map Elapsed (run_sjf qsort orig)))
       \<and> (\<forall>res. run_rr orig = Inr res \<longrightarrow>
            (\<forall>r \<in> set res. 0 \<le> FirstRun r \<and> FirstRun r \<le> Elapsed r)
            \<and> sorted (map Elapsed res))
       \<and> ((\<forall>r \<in> set (run_mlfq orig). 0 \<le> FirstRun r \<and> FirstRun r \<le> Elapsed r)
          \<and> sorted (map Elapsed (run_mlfq orig)))
       \<and> (\<forall>p t dt p' taken io_dur.
            proc_inv orig t p \<and> 0 \<le> dt \<and> eat_cpu p dt = (p', taken, io_dur) \<longrightarrow>
            0 \<le> taken \<and> t \<le> (if 0 \<le> io_dur then t + taken + io_dur else t + taken))
       \<and> (\<forall>p ps t res. 0 \<le> t \<and> proc_inv orig t p \<longrightarrow>
            (\<exists>r t'. t \<le> t' \<and> Elapsed r = t'
                    \<and> fifo_for (p # ps) t res = fifo_for ps t' (res @ [r])))
       \<and> (\<forall>p ps t res. 0 \<le> t \<and> proc_inv orig t p \<longrightarrow>
            (\<exists>r t'. t \<le> t' \<and> Elapsed r = t'
                    \<and> sjf_for (p # ps) t res = sjf_for ps t' (res @ [r])))
       \<and> rr_inv orig (rr_init orig)
       \<and> (\<forall>cap s s'. rr_inv orig s \<and> rr_qstart s < length (rr_queue s) \<and> rr_body cap s = Inr s' \<longrightarrow>
            rr_inv orig s' \<and> rr_t s \<le> rr_t s'
            \<and> (rr_res s' = rr_res s \<or> (\<exists>r. rr_res s' = rr_res s @ [r] \<and> Elapsed r = rr_t s')))
       \<and> mlfq_inv orig (mlfq_init orig)
       \<and> (\<forall>s qidx. mlfq_inv orig s \<and> first_nonempty (queues s) 0 = Some qidx \<longrightarrow>
            mlfq_inv orig (mlfq_body s qidx) \<and> mlfq_t s \<le> mlfq_t (mlfq_body s qidx)
            \<and> (mlfq_res (mlfq_body s qidx) = mlfq_res s
               \<or> (\<exists>r. mlfq_res (mlfq_body s qidx) = mlfq_res s @ [r]
                       \<and> Elapsed r = mlfq_t (mlfq_body s qidx))))"
proof -
  have run: "(\<forall>r \<in> set res. 0 \<le> FirstRun r \<and> FirstRun r \<le> Elapsed r) \<and> sorted (map Elapsed res)"
    if "\<exists>T. results_inv orig T res" for res
    using that by (auto simp: results_inv_def res_ok_def)
  note pr = policy_results [of orig qsort, OF v q]
  have a: "(\<forall>r \<in> set (run_fifo orig). 0 \<le> FirstRun r \<and> FirstRun r \<le> Elapsed r)
          \<and> sorted (map Elapsed (run_fifo orig))"
    using pr by (intro run) blast
  have b: "(\<forall>r \<in> set (run_sjf qsort orig). 0 \<le> FirstRun r \<and> FirstRun r \<le> Elapsed r)
          \<and> sorted (map Elapsed (run_sjf qsort orig))"
    using pr by (intro run) blast
  have c: "\<forall>res. run_rr orig = Inr res \<longrightarrow>
            (\<forall>r \<in> set res. 0 \<le> FirstRun r \<and> FirstRun r \<le> Elapsed r)
            \<and> sorted (map Elapsed res)"
    using pr by (intro allI impI run) blast
  have d: "(\<forall>r \<in> set (run_mlfq orig). 0 \<le> FirstRun r \<and> FirstRun r \<le> Elapsed r)
          \<and> sorted (map Elapsed (run_mlfq orig))"
    using pr by (intro run) blast
  have x: "\<forall>p t dt p' taken io_dur.
            proc_inv orig t p \<and> 0 \<le> dt \<and> eat_cpu p dt = (p', taken, io_dur) \<longrightarrow>
            0 \<le> taken \<and> t \<le> (if 0 \<le> io_dur then t + taken + io_dur else t + taken)"
    using eat_cpu_clock by blast
  have e: "\<forall>p ps t res. 0 \<le> t \<and> proc_inv orig t p \<longrightarrow>
            (\<exists>r t'. t \<le> t' \<and> Elapsed r = t'
                    \<and> fifo_for (p # ps) t res = fifo_for ps t' (res @ [r]))"
    using fifo_for_step by blast
  have f: "\<forall>p ps t res. 0 \<le> t \<and> proc_inv orig t p \<longrightarrow>
            (\<exists>r t'. t \<le> t' \<and> Elapsed r = t'
                    \<and> sjf_for (p # ps) t res = sjf_for ps t' (res @ [r]))"
    unfolding sjf_for_fifo_for using fifo_for_step by blast
  have g: "\<forall>cap s s'. rr_inv orig s \<and> rr_qstart s < length (rr_queue s) \<and> rr_body cap s = Inr s' \<longrightarrow>
            rr_inv orig s' \<and> rr_t s \<le> rr_t s'
            \<and> (rr_res s' = rr_res s \<or> (\<exists>r. rr_res s' = rr_res s @ [r] \<and> Elapsed r = rr_t s'))"
    using rr_body_inv by blast
  have h: "\<forall>s qidx. mlfq_inv orig s \<and> first_nonempty (queues s) 0 = Some qidx \<longrightarrow>
            mlfq_inv orig (mlfq_body s qidx) \<and> mlfq_t s \<le> mlfq_t (mlfq_body s qidx)
            \<and> (mlfq_res (mlfq_body s qidx) = mlfq_res s
               \<or> (\<exists>r. mlfq_res (mlfq_body s qidx) = mlfq_res s @ [r]
                       \<and> Elapsed r = mlfq_t (mlfq_body s qidx)))"
    using mlfq_body_inv by blast
  note ri = rr_init_inv [OF v] and mi = mlfq_init_inv [OF v]
  show ?thesis
    by (rule conjI [OF a conjI [OF b conjI [OF c conjI [OF d conjI [OF x conjI [OF e conjI [OF f
          conjI [OF ri conjI [OF g conjI [OF mi h]]]]]]]]]])
qed

text \<open>
  The theorem of claim C8 at scenario 3 with the sort \<open>stable_qsort\<close>, and at the first
  iteration of Round-Robin on it.
\<close>

theorem clock_monotone_witness:
  "list_all (\<lambda>d. 0 \<le> total_cpu_needed d) make_scenario3
   \<and> mset (stable_qsort cmp_total_cpu (clone_processes make_scenario3))
       = mset (clone_processes make_scenario3)
   \<and> list_all (\<lambda>r. 0 \<le> FirstRun r \<and> FirstRun r \<le> Elapsed r) (run_fifo make_scenario3)
   \<and> list_all (\<lambda>r. 0 \<le> FirstRun r \<and> FirstRun r \<le> Elapsed r) (run_mlfq make_scenario3)
   \<and> sorted (map Elapsed (run_mlfq make_scenario3))
   \<and> rr_inv make_scenario3 (rr_init make_scenario3)
   \<and> rr_qstart (rr_init make_scenario3) < length (rr_queue (rr_init make_scenario3))
   \<and> (\<exists>s'. rr_body 6 (rr_init make_scenario3) = Inr s'
            \<and> rr_t (rr_init make_scenario3) \<le> rr_t s')"
proof -
  note v = scenario3_demands
  note q = mset_stable_qsort [of cmp_total_cpu "clone_processes make_scenario3"]
  note th = clock_monotone [of make_scenario3 stable_qsort, OF v q]
  note fifo = th [THEN conjunct1]
  note mlfq = th [THEN conjunct2, THEN conjunct2, THEN conjunct2, THEN conjunct1]
  note rest = th [THEN conjunct2, THEN conjunct2, THEN conjunct2, THEN conjunct2,
      THEN conjunct2, THEN conjunct2, THEN conjunct2]
  note c4 = rest [THEN conjunct1]
  note step = rest [THEN conjunct2, THEN conjunct1]
  have h1: "list_all (\<lambda>d. 0 \<le> total_cpu_needed d) make_scenario3"
    using v by (simp add: list_all_iff)
  from fifo have c1: "list_all (\<lambda>r. 0 \<le> FirstRun r \<and> FirstRun r \<le> Elapsed r) (run_fifo make_scenario3)"
    unfolding list_all_iff by (rule conjunct1)
  from mlfq have c2: "list_all (\<lambda>r. 0 \<le> FirstRun r \<and> FirstRun r \<le> Elapsed r) (run_mlfq make_scenario3)"
    unfolding list_all_iff by (rule conjunct1)
  from mlfq have c3: "sorted (map Elapsed (run_mlfq make_scenario3))" by (rule conjunct2)
  have c5: "rr_qstart (rr_init make_scenario3) < length (rr_queue (rr_init make_scenario3))"
    by (simp add: rr_init_def make_scenario3_def clone_processes_def)
  obtain s' where b: "rr_body 6 (rr_init make_scenario3) = Inr s'"
    by (simp add: rr_eval make_scenario3_def)
  from step c4 c5 b have "rr_t (rr_init make_scenario3) \<le> rr_t s'" by blast
  with b have c6: "\<exists>s'. rr_body 6 (rr_init make_scenario3) = Inr s'
            \<and> rr_t (rr_init make_scenario3) \<le> rr_t s'" by blast
  from h1 q c1 c2 c3 c4 c5 c6 show ?thesis by blast
qed

section \<open>Conservation on the built-in scenarios (claim C6)\<close>

text \<open>
  Multiples of one tenth: sums and differences of them are such multiples, and one
  that is between 0 and \<open>EPS\<close> is 0.
\<close>

lemma tenth_simps: "tenth 0" "tenth QUANTUM"
  by (simp_all add: tenth_def QUANTUM_def)

lemma tenth_add: "tenth a \<Longrightarrow> tenth b \<Longrightarrow> tenth (a + b)"
  by (simp add: tenth_def distrib_left)

lemma tenth_diff: "tenth a \<Longrightarrow> tenth b \<Longrightarrow> tenth (a - b)"
  by (simp add: tenth_def right_diff_distrib)

lemma tenth_small:
  assumes "tenth x" and "0 \<le> x" and "x \<le> EPS"
  shows "x = 0"
proof -
  from assms(1) obtain k :: int where k: "10 * x = of_int k"
    by (auto simp: tenth_def Ints_def)
  from assms(2,3) have "0 \<le> 10 * x" "10 * x < 1" by (simp_all add: EPS_def)
  then have "0 \<le> k" "k < 1" unfolding k by simp_all
  then have "k = 0" by simp
  with k show ?thesis by simp
qed

text \<open>
  A consumption step with a budget that is a multiple of one tenth keeps \<open>grid_inv\<close>, and
  a process with \<open>grid_inv\<close> that is done is conserved.
\<close>

lemma eat_cpu_taken_cases:
  assumes "eat_cpu p dt = (p', taken, io_dur)"
  shows "taken = 0 \<or> taken = dt \<or> taken = remaining p
       \<or> (next_io_index p < io_count p
           \<and> taken = when_cpu (io_events p ! next_io_index p) - cpu_consumed p)"
  using assms by (auto simp: eat_cpu_def Let_def split: if_splits)

lemma grid_inv_eat:
  assumes g: "grid_inv orig p" and dt: "0 \<le> dt" "tenth dt"
    and e: "eat_cpu p dt = (p', taken, io_dur)"
  shows "grid_inv orig p'"
proof -
  from g have r: "0 \<le> remaining p" and bal: "remaining p = total_cpu_needed p - cpu_consumed p"
    and tr: "tenth (remaining p)" and tc: "tenth (cpu_consumed p)"
    and tw: "\<forall>e \<in> set (io_events p). tenth (when_cpu e)"
    and nm: "\<exists>d \<in> set orig. name d = name p \<and> total_cpu_needed d = total_cpu_needed p"
    unfolding grid_inv_def by blast+
  note b = eat_cpu_taken_bounds [OF e dt(1) r]
  note f = eat_cpu_frame [OF e] and rm = eat_cpu_remaining [OF e] and c = eat_cpu_consumed [OF e]
  have w: "tenth (when_cpu (io_events p ! next_io_index p))" if "next_io_index p < io_count p"
    using tw that by (simp add: io_count_def)
  have t: "tenth taken"
    using eat_cpu_taken_cases [OF e] dt(2) tr tenth_diff [OF w tc]
    by (auto simp: tenth_simps)
  have a1: "0 \<le> remaining p'" using b rm by simp
  have a2: "remaining p' = total_cpu_needed p' - cpu_consumed p'" using bal f rm c by simp
  have a3: "tenth (remaining p')" unfolding rm by (rule tenth_diff [OF tr t])
  have a4: "tenth (cpu_consumed p')" unfolding c by (rule tenth_add [OF tc t])
  have a5: "\<forall>e \<in> set (io_events p'). tenth (when_cpu e)" using tw f by simp
  have a6: "\<exists>d \<in> set orig. name d = name p' \<and> total_cpu_needed d = total_cpu_needed p'"
    using nm f by simp
  from a1 a2 a3 a4 a5 a6 show ?thesis unfolding grid_inv_def by blast
qed

lemma grid_inv_fields [simp]:
  "grid_inv orig (p\<lparr>first_run_time := a\<rparr>) = grid_inv orig p"
  "grid_inv orig (p\<lparr>finish_time := b\<rparr>) = grid_inv orig p"
  by (simp_all add: grid_inv_def)

lemma conserved_fields [simp]:
  "conserved orig (p\<lparr>finish_time := b\<rparr>) = conserved orig p"
  by (simp add: conserved_def)

lemma grid_inv_done: "grid_inv orig p \<Longrightarrow> is_done p \<Longrightarrow> conserved orig p"
  using tenth_small [of "remaining p"]
  by (auto simp: grid_inv_def is_done_def conserved_def)

text \<open>
  FIFO, and SJF after the sort: the inner loop leaves a process done and with
  \<open>grid_inv\<close>, so every process is given to \<^verbatim>\<open>fill_result\<close> conserved; the records
  of the run are the records of the processes of \<open>fifo_completed\<close>.
\<close>

lemma fifo_while_grid:
  "grid_inv orig p \<Longrightarrow> fifo_while p t = (p', t') \<Longrightarrow> grid_inv orig p' \<and> is_done p'"
proof (induction p t rule: fifo_while.induct)
  case (1 p t)
  show ?case
  proof (cases "is_done p")
    case True
    with "1.prems" show ?thesis by (simp add: fifo_while.simps)
  next
    case False
    obtain p2 taken io_dur where e: "eat_cpu p (remaining p) = (p2, taken, io_dur)"
      by (cases "eat_cpu p (remaining p)") auto
    let ?t2 = "if 0 \<le> io_dur then t + taken + io_dur else t + taken"
    from "1.prems"(1) have "0 \<le> remaining p" "tenth (remaining p)"
      unfolding grid_inv_def by blast+
    from grid_inv_eat [OF "1.prems"(1) this e] have i2: "grid_inv orig p2" .
    from "1.prems"(2) False e have w: "fifo_while p2 ?t2 = (p', t')"
      by (subst (asm) fifo_while.simps) simp
    from "1.IH" [OF False e [symmetric] refl i2 w] show ?thesis by simp
  qed
qed

lemma fifo_completed_conserved:
  "\<forall>p \<in> set ps. grid_inv orig p \<Longrightarrow> list_all (conserved orig) (fifo_completed ps t)"
proof (induction ps arbitrary: t)
  case Nil
  then show ?case by simp
next
  case (Cons p ps)
  let ?p1 = "if first_run_time p < 0 then p\<lparr>first_run_time := t\<rparr> else p"
  obtain p2 t2 where w: "fifo_while ?p1 t = (p2, t2)"
    by (cases "fifo_while ?p1 t") auto
  from Cons.prems have "grid_inv orig ?p1" by simp
  from fifo_while_grid [OF this w] have "conserved orig p2" by (simp add: grid_inv_done)
  moreover from Cons.prems have "\<forall>q \<in> set ps. grid_inv orig q" by simp
  from Cons.IH [OF this] have "list_all (conserved orig) (fifo_completed ps t2)" .
  ultimately show ?case using w by (simp add: Let_def split del: if_split)
qed

lemma fifo_for_completed:
  "fifo_for ps t res = foldl store_result res (fifo_completed ps t)"
proof (induction ps arbitrary: t res)
  case Nil
  then show ?case by simp
next
  case (Cons p ps)
  let ?p1 = "if first_run_time p < 0 then p\<lparr>first_run_time := t\<rparr> else p"
  obtain p2 t2 where w: "fifo_while ?p1 t = (p2, t2)"
    by (cases "fifo_while ?p1 t") auto
  show ?case using w Cons.IH by (simp add: Let_def split del: if_split)
qed

text \<open>MLFQ: the same for the processes of \<open>mlfq_completed\<close>.\<close>

lemma mlfq_completed_step_eq:
  assumes "eat_cpu (if first_run_time (hd (queues s ! qidx)) < 0
                    then (hd (queues s ! qidx))\<lparr>first_run_time := mlfq_t s\<rparr>
                    else hd (queues s ! qidx)) QUANTUM = (p', taken, io_dur)"
  shows "mlfq_completed_step s qidx =
     (if is_done p' then
        [p'\<lparr>finish_time := (if 0 \<le> io_dur then mlfq_t s + taken + io_dur
                             else mlfq_t s + taken)\<rparr>]
      else [])"
  using assms by (simp add: mlfq_completed_step_def Let_def split del: if_split)

lemma mlfq_body_completed:
  "mlfq_res (mlfq_body s qidx) = foldl store_result (mlfq_res s) (mlfq_completed_step s qidx)"
proof -
  let ?p1 = "if first_run_time (hd (queues s ! qidx)) < 0
             then (hd (queues s ! qidx))\<lparr>first_run_time := mlfq_t s\<rparr>
             else hd (queues s ! qidx)"
  obtain p2 taken io_dur where e: "eat_cpu ?p1 QUANTUM = (p2, taken, io_dur)"
    by (cases "eat_cpu ?p1 QUANTUM") auto
  show ?thesis
    unfolding mlfq_body_eq [OF e] mlfq_completed_step_eq [OF e] by simp
qed

lemma mlfq_while_completed:
  "mlfq_res (mlfq_while s) = foldl store_result (mlfq_res s) (mlfq_completed s)"
proof (induction s rule: mlfq_while.induct)
  case (1 s)
  show ?case
  proof (cases "first_nonempty (queues s) 0")
    case None
    then show ?thesis by (simp add: mlfq_while.simps mlfq_completed.simps)
  next
    case (Some qidx)
    from "1.IH" [OF Some] Some show ?thesis
      by (subst mlfq_while.simps, subst mlfq_completed.simps) (simp add: mlfq_body_completed)
  qed
qed

lemma mlfq_body_grid:
  assumes inv: "mlfq_grid orig s" and fn: "first_nonempty (queues s) 0 = Some qidx"
  shows "mlfq_grid orig (mlfq_body s qidx) \<and> list_all (conserved orig) (mlfq_completed_step s qidx)"
proof -
  from first_nonempty_Some [OF fn]
  have k: "qidx < length (queues s)" and ne: "queues s ! qidx \<noteq> []" by simp_all
  let ?q = "queues s ! qidx"
  let ?p = "hd ?q"
  let ?p1 = "if first_run_time ?p < 0 then ?p\<lparr>first_run_time := mlfq_t s\<rparr> else ?p"
  let ?qs = "(queues s)[qidx := tl ?q]"
  obtain p2 taken io_dur where e: "eat_cpu ?p1 QUANTUM = (p2, taken, io_dur)"
    by (cases "eat_cpu ?p1 QUANTUM") auto
  from k ne have "?q \<in> set (queues s)" "?p \<in> set ?q" by simp_all
  with inv have "grid_inv orig ?p" by (auto simp: mlfq_grid_def)
  then have "grid_inv orig ?p1" by simp
  have "0 \<le> QUANTUM" by (simp add: QUANTUM_def)
  from grid_inv_eat [OF \<open>grid_inv orig ?p1\<close> this tenth_simps(2) e] have i2: "grid_inv orig p2" .
  have q1: "grid_inv orig x" if "q \<in> set ?qs" "x \<in> set q" for q x
    using in_update_tl [OF that k] inv by (auto simp: mlfq_grid_def)
  note eq = mlfq_body_eq [OF e] and ceq = mlfq_completed_step_eq [OF e]
  show ?thesis
  proof (cases "is_done p2")
    case True
    with q1 grid_inv_done [OF i2] show ?thesis
      unfolding eq ceq mlfq_grid_def by simp
  next
    case False
    have q2: "grid_inv orig x"
      if "q \<in> set (?qs[new_q qidx taken := ?qs ! new_q qidx taken @ [p2]])" "x \<in> set q" for q x
      using in_update_append [OF that] q1 i2 by blast
    with False show ?thesis
      unfolding eq ceq mlfq_grid_def by simp
  qed
qed

lemma mlfq_completed_conserved:
  "mlfq_grid orig s \<Longrightarrow> list_all (conserved orig) (mlfq_completed s)"
proof (induction s rule: mlfq_completed.induct)
  case (1 s)
  show ?case
  proof (cases "first_nonempty (queues s) 0")
    case None
    then show ?thesis by (simp add: mlfq_completed.simps)
  next
    case (Some qidx)
    note b = mlfq_body_grid [OF "1.prems" Some]
    from "1.IH" [OF Some] b Some show ?thesis
      by (subst mlfq_completed.simps) simp
  qed
qed

text \<open>The processes cloned from a built-in scenario have \<open>grid_inv\<close>.\<close>

lemma scenario_grid:
  assumes "make_scenario scen = Some orig"
  shows "\<forall>p \<in> set (clone_processes orig). grid_inv orig p"
proof -
  from assms have "orig = make_scenario1 \<or> orig = make_scenario2 \<or> orig = make_scenario3
      \<or> orig = make_scenario4"
    by (auto simp: make_scenario_def split: if_splits)
  then show ?thesis
    by (elim disjE)
      (simp_all add: make_scenario1_def make_scenario2_def make_scenario3_def make_scenario4_def
        clone_processes_def new_process_def io_def grid_inv_def tenth_def)
qed

text \<open>
  Round-Robin: once an iteration has written out of bounds, every longer partial run has;
  on each built-in scenario this comes before any record is stored.
\<close>

lemma rr_iterate_fault:
  "rr_iterate cap k s = Inl e \<Longrightarrow> rr_iterate cap (k + n) s = Inl e"
proof (induction k arbitrary: s)
  case 0
  then show ?case by simp
next
  case (Suc k)
  show ?case
  proof (cases "rr_qstart s < length (rr_queue s)")
    case True
    show ?thesis
    proof (cases "rr_body cap s")
      case (Inl x)
      with True Suc.prems show ?thesis by simp
    next
      case (Inr s')
      with True Suc.prems have "rr_iterate cap k s' = Inl e" by simp
      from Suc.IH [OF this] True Inr show ?thesis by simp
    qed
  next
    case False
    with Suc.prems show ?thesis by simp
  qed
qed

lemma rr_no_record_before:
  assumes f: "rr_iterate cap k s0 = Inl e"
    and b: "\<forall>i < k. \<exists>s. rr_iterate cap i s0 = Inr s \<and> rr_res s = []"
    and r: "rr_iterate cap n s0 = Inr s"
  shows "rr_res s = []"
proof (cases "n < k")
  case True
  with b r show ?thesis by auto
next
  case False
  then have "n = k + (n - k)" by simp
  with rr_iterate_fault [OF f, of "n - k"] r show ?thesis by simp
qed

lemma rr_scenario1_turns:
  "rr_iterate 6 4 (rr_init make_scenario1) = Inl QueueOverflow"
  "\<forall>i < 4. \<exists>s. rr_iterate 6 i (rr_init make_scenario1) = Inr s \<and> rr_res s = []"
  by (simp_all add: rr_eval make_scenario1_def eval_nat_numeral All_less_Suc)

lemma rr_scenario2_turns:
  "rr_iterate 12 7 (rr_init make_scenario2) = Inl QueueOverflow"
  "\<forall>i < 7. \<exists>s. rr_iterate 12 i (rr_init make_scenario2) = Inr s \<and> rr_res s = []"
  by (simp_all add: rr_eval make_scenario2_def eval_nat_numeral All_less_Suc)

lemma rr_scenario3_turns:
  "rr_iterate 6 4 (rr_init make_scenario3) = Inl QueueOverflow"
  "\<forall>i < 4. \<exists>s. rr_iterate 6 i (rr_init make_scenario3) = Inr s \<and> rr_res s = []"
  by (simp_all add: rr_eval make_scenario3_def eval_nat_numeral All_less_Suc)

lemma rr_scenario4_turns:
  "rr_iterate 6 4 (rr_init make_scenario4) = Inl QueueOverflow"
  "\<forall>i < 4. \<exists>s. rr_iterate 6 i (rr_init make_scenario4) = Inr s \<and> rr_res s = []"
  by (simp_all add: rr_eval make_scenario4_def eval_nat_numeral All_less_Suc)

lemma rr_scenario_no_record:
  assumes "make_scenario scen = Some orig"
  shows "run_rr orig = Inl QueueOverflow
       \<and> (\<forall>n s. rr_iterate (length orig * 2) n (rr_init orig) = Inr s \<longrightarrow> rr_res s = [])"
proof -
  from assms have "orig = make_scenario1 \<or> orig = make_scenario2 \<or> orig = make_scenario3
      \<or> orig = make_scenario4"
    by (auto simp: make_scenario_def split: if_splits)
  then show ?thesis
  proof (elim disjE)
    assume o: "orig = make_scenario1"
    have l: "length make_scenario1 * 2 = 6" by (simp add: make_scenario1_def)
    have "run_rr orig = Inl QueueOverflow" by (simp add: o rr_eval make_scenario1_def)
    with rr_no_record_before [OF rr_scenario1_turns] show ?thesis unfolding o l by blast
  next
    assume o: "orig = make_scenario2"
    have l: "length make_scenario2 * 2 = 12" by (simp add: make_scenario2_def)
    have "run_rr orig = Inl QueueOverflow" by (simp add: o rr_eval make_scenario2_def)
    with rr_no_record_before [OF rr_scenario2_turns] show ?thesis unfolding o l by blast
  next
    assume o: "orig = make_scenario3"
    have l: "length make_scenario3 * 2 = 6" by (simp add: make_scenario3_def)
    have "run_rr orig = Inl QueueOverflow" by (simp add: o rr_eval make_scenario3_def)
    with rr_no_record_before [OF rr_scenario3_turns] show ?thesis unfolding o l by blast
  next
    assume o: "orig = make_scenario4"
    have l: "length make_scenario4 * 2 = 6" by (simp add: make_scenario4_def)
    have "run_rr orig = Inl QueueOverflow" by (simp add: o rr_eval make_scenario4_def)
    with rr_no_record_before [OF rr_scenario4_turns] show ?thesis unfolding o l by blast
  qed
qed

text \<open>The record of a conserved process is conserved.\<close>

lemma store_result_conserved:
  assumes c: "conserved orig p" and r: "list_all (res_conserved orig) res"
  shows "list_all (res_conserved orig) (store_result res p)"
proof -
  from c obtain d where d: "d \<in> set orig" "name p = name d" "cpu_consumed p = total_cpu_needed d"
    by (auto simp: conserved_def)
  have "res_conserved orig ((fill_result blank_result p)\<lparr>rname := name p\<rparr>)"
    unfolding res_conserved_def
    by (rule bexI [OF _ d(1)]) (simp add: fill_result_def d(2,3))
  with r show ?thesis by (simp add: store_result_def)
qed

lemma foldl_store_result_conserved:
  "list_all (conserved orig) ps \<Longrightarrow> list_all (res_conserved orig) res \<Longrightarrow>
     list_all (res_conserved orig) (foldl store_result res ps)"
  by (induction ps arbitrary: res) (simp_all add: store_result_conserved)

text \<open>
  Round-Robin with an array of any capacity: an iteration that stays within the array
  keeps \<open>rr_grid\<close>.
\<close>

lemma rr_body_grid:
  assumes inv: "rr_grid orig s" and lt: "rr_qstart s < length (rr_queue s)"
    and b: "rr_body cap s = Inr s'"
  shows "rr_grid orig s'"
proof -
  let ?p = "rr_queue s ! rr_qstart s"
  let ?p1 = "if first_run_time ?p < 0 then ?p\<lparr>first_run_time := rr_t s\<rparr> else ?p"
  obtain p2 taken io_dur where e: "eat_cpu ?p1 QUANTUM = (p2, taken, io_dur)"
    by (cases "eat_cpu ?p1 QUANTUM") auto
  let ?t = "if 0 \<le> io_dur then rr_t s + taken + io_dur else rr_t s + taken"
  from inv lt have "grid_inv orig ?p" by (simp add: rr_grid_def)
  then have g1: "grid_inv orig ?p1" by simp
  have "0 \<le> QUANTUM" by (simp add: QUANTUM_def)
  from grid_inv_eat [OF g1 this tenth_simps(2) e] have i2: "grid_inv orig p2" .
  from inv have r: "list_all (res_conserved orig) (rr_res s)" by (simp add: rr_grid_def)
  note eq = rr_body_eq [OF e, of cap]
  show ?thesis
  proof (cases "is_done p2")
    case True
    with eq b have s': "s' = s\<lparr>rr_qstart := rr_qstart s + 1, rr_t := ?t,
        rr_res := store_result (rr_res s) (p2\<lparr>finish_time := ?t\<rparr>)\<rparr>"
      by simp
    from grid_inv_done [OF i2 True] have "conserved orig (p2\<lparr>finish_time := ?t\<rparr>)" by simp
    from store_result_conserved [OF this r] show ?thesis
      unfolding s' using inv by (simp add: rr_grid_def)
  next
    case False
    with eq b have s': "s' = s\<lparr>rr_queue := rr_queue s @ [p2], rr_qstart := rr_qstart s + 1, rr_t := ?t\<rparr>"
      by (simp split: if_splits)
    show ?thesis
      unfolding s' using inv i2 by (auto simp: rr_grid_def)
  qed
qed

lemma rr_iterate_grid:
  "rr_grid orig s \<Longrightarrow> rr_iterate cap n s = Inr s' \<Longrightarrow> rr_grid orig s'"
proof (induction n arbitrary: s)
  case 0
  then show ?case by simp
next
  case (Suc n)
  show ?case
  proof (cases "rr_qstart s < length (rr_queue s)")
    case False
    with Suc.prems show ?thesis by simp
  next
    case True
    with Suc.prems(2) obtain s1 where b: "rr_body cap s = Inr s1"
      and w: "rr_iterate cap n s1 = Inr s'"
      by (auto split: sum.splits)
    from Suc.IH [OF rr_body_grid [OF Suc.prems(1) True b] w] show ?thesis .
  qed
qed

text \<open>
  Claim C6. Let \<open>orig\<close> be a valid scenario, one of the four that \<^verbatim>\<open>make_scenario\<close>
  builds, and let \<^verbatim>\<open>qsort\<close> return a rearrangement of its input. Under FIFO, SJF and
  MLFQ the records of the run are the records of the processes that
  \<^verbatim>\<open>fill_result\<close> is given, and each of these processes has \<open>remaining = 0\<close> and
  \<open>cpu_consumed = total_cpu_needed\<close>, which is the demand of its definition; so the
  \<open>CPU\<close> of every record is the demand of the process of that name. Under Round-Robin
  no process completes: the run ends with the write past the end of the queue array, and
  no partial run has stored a record before it. Were the array of any other capacity, the
  \<open>CPU\<close> of every record that a partial run has stored would be the demand of the
  process of that name.
\<close>

theorem conservation_scenarios:
  assumes s: "make_scenario scen = Some orig"
    and q: "mset (qsort cmp_total_cpu (clone_processes orig)) = mset (clone_processes orig)"
  shows "(run_fifo orig = foldl store_result [] (fifo_completed (clone_processes orig) 0)
          \<and> list_all (conserved orig) (fifo_completed (clone_processes orig) 0)
          \<and> list_all (res_conserved orig) (run_fifo orig))
       \<and> (run_sjf qsort orig
            = foldl store_result []
                (fifo_completed (qsort cmp_total_cpu (clone_processes orig)) 0)
          \<and> list_all (conserved orig)
                (fifo_completed (qsort cmp_total_cpu (clone_processes orig)) 0)
          \<and> list_all (res_conserved orig) (run_sjf qsort orig))
       \<and> (run_mlfq orig = foldl store_result [] (mlfq_completed (mlfq_init orig))
          \<and> list_all (conserved orig) (mlfq_completed (mlfq_init orig))
          \<and> list_all (res_conserved orig) (run_mlfq orig))
       \<and> (run_rr orig = Inl QueueOverflow
          \<and> (\<forall>n s. rr_iterate (length orig * 2) n (rr_init orig) = Inr s \<longrightarrow> rr_res s = [])
          \<and> (\<forall>cap n s. rr_iterate cap n (rr_init orig) = Inr s \<longrightarrow>
                list_all (res_conserved orig) (rr_res s)))"
proof -
  note g = scenario_grid [OF s]
  from q have "set (qsort cmp_total_cpu (clone_processes orig)) = set (clone_processes orig)"
    by (rule mset_eq_setD)
  with g have gq: "\<forall>p \<in> set (qsort cmp_total_cpu (clone_processes orig)). grid_inv orig p"
    by simp
  have f1: "run_fifo orig = foldl store_result [] (fifo_completed (clone_processes orig) 0)"
    by (simp add: run_fifo_def fifo_for_completed)
  have f2: "list_all (conserved orig) (fifo_completed (clone_processes orig) 0)"
    by (rule fifo_completed_conserved [OF g])
  have f3: "list_all (res_conserved orig) (run_fifo orig)"
    unfolding f1 by (rule foldl_store_result_conserved [OF f2]) simp
  have j1: "run_sjf qsort orig
            = foldl store_result []
                (fifo_completed (qsort cmp_total_cpu (clone_processes orig)) 0)"
    by (simp add: run_sjf_def sjf_for_fifo_for fifo_for_completed)
  have j2: "list_all (conserved orig)
                (fifo_completed (qsort cmp_total_cpu (clone_processes orig)) 0)"
    by (rule fifo_completed_conserved [OF gq])
  have j3: "list_all (res_conserved orig) (run_sjf qsort orig)"
    unfolding j1 by (rule foldl_store_result_conserved [OF j2]) simp
  have m1: "run_mlfq orig = foldl store_result [] (mlfq_completed (mlfq_init orig))"
    using mlfq_while_completed [of "mlfq_init orig"] by (simp add: run_mlfq_def mlfq_init_simps)
  have "mlfq_grid orig (mlfq_init orig)"
    using g by (auto simp: mlfq_grid_def mlfq_init_simps)
  then have m2: "list_all (conserved orig) (mlfq_completed (mlfq_init orig))"
    by (rule mlfq_completed_conserved)
  have m3: "list_all (res_conserved orig) (run_mlfq orig)"
    unfolding m1 by (rule foldl_store_result_conserved [OF m2]) simp
  note r = rr_scenario_no_record [OF s]
  have "rr_grid orig (rr_init orig)"
    using g by (simp add: rr_grid_def rr_init_def)
  then have "list_all (res_conserved orig) (rr_res s')"
    if "rr_iterate cap n (rr_init orig) = Inr s'" for cap n s'
    using rr_iterate_grid [OF _ that, of orig] by (simp add: rr_grid_def)
  then have r3: "\<forall>cap n s. rr_iterate cap n (rr_init orig) = Inr s \<longrightarrow>
                list_all (res_conserved orig) (rr_res s)"
    by blast
  note f = conjI [OF f1 conjI [OF f2 f3]]
  note j = conjI [OF j1 conjI [OF j2 j3]]
  note m = conjI [OF m1 conjI [OF m2 m3]]
  note rr = conjI [OF r [THEN conjunct1] conjI [OF r [THEN conjunct2] r3]]
  show ?thesis
    by (rule conjI [OF f conjI [OF j conjI [OF m rr]]])
qed

text \<open>
  The theorem of claim C6 at scenario 3 with the sort \<open>stable_qsort\<close>. Under FIFO the
  three processes complete with nothing remaining and 5 units consumed of a demand of 5.
  With an array of 64 slots in the place of the 6, Round-Robin completes the three
  processes, and the records have \<open>CPU = 5\<close>.
\<close>

theorem conservation_scenarios_witness:
  "make_scenario 3 = Some make_scenario3
   \<and> mset (stable_qsort cmp_total_cpu (clone_processes make_scenario3))
       = mset (clone_processes make_scenario3)
   \<and> list_all (conserved make_scenario3) (fifo_completed (clone_processes make_scenario3) 0)
   \<and> list_all (conserved make_scenario3)
        (fifo_completed (stable_qsort cmp_total_cpu (clone_processes make_scenario3)) 0)
   \<and> list_all (conserved make_scenario3) (mlfq_completed (mlfq_init make_scenario3))
   \<and> list_all (res_conserved make_scenario3) (run_mlfq make_scenario3)
   \<and> run_rr make_scenario3 = Inl QueueOverflow
   \<and> map (\<lambda>p. (name p, remaining p, cpu_consumed p, total_cpu_needed p))
        (fifo_completed (clone_processes make_scenario3) 0)
       = [(''A'', 0, 5, 5), (''B'', 0, 5, 5), (''C'', 0, 5, 5)]
   \<and> (\<exists>s. rr_iterate 64 60 (rr_init make_scenario3) = Inr s
          \<and> map (\<lambda>r. (rname r, CPU r)) (rr_res s) = [(''A'', 5), (''B'', 5), (''C'', 5)]
          \<and> list_all (res_conserved make_scenario3) (rr_res s))"
proof -
  have h: "make_scenario 3 = Some make_scenario3" by (simp add: make_scenario_def)
  note q = mset_stable_qsort [of cmp_total_cpu "clone_processes make_scenario3"]
  note th = conservation_scenarios [of 3 make_scenario3 stable_qsort, OF h q]
  note c1 = th [THEN conjunct1, THEN conjunct2, THEN conjunct1]
  note c2 = th [THEN conjunct2, THEN conjunct1, THEN conjunct2, THEN conjunct1]
  note c3 = th [THEN conjunct2, THEN conjunct2, THEN conjunct1, THEN conjunct2, THEN conjunct1]
  note c4 = th [THEN conjunct2, THEN conjunct2, THEN conjunct1, THEN conjunct2, THEN conjunct2]
  note c5 = th [THEN conjunct2, THEN conjunct2, THEN conjunct2, THEN conjunct1]
  have c6: "map (\<lambda>p. (name p, remaining p, cpu_consumed p, total_cpu_needed p))
        (fifo_completed (clone_processes make_scenario3) 0)
       = [(''A'', 0, 5, 5), (''B'', 0, 5, 5), (''C'', 0, 5, 5)]"
    by (simp add: make_scenario3_def clone_processes_def new_process_def io_def fifo_while.simps
        eat_cpu_def io_count_def is_done_def EPS_def Let_def)
  note c7 = th [THEN conjunct2, THEN conjunct2, THEN conjunct2, THEN conjunct2, THEN conjunct2]
  obtain s where r: "rr_iterate 64 60 (rr_init make_scenario3) = Inr s"
    and v: "map (\<lambda>r. (rname r, CPU r)) (rr_res s) = [(''A'', 5), (''B'', 5), (''C'', 5)]"
    by (simp add: rr_init_def rr_body_def clone_processes_def new_process_def io_def
        eat_cpu_def io_count_def is_done_def EPS_def QUANTUM_def Let_def make_scenario3_def
        store_result_def fill_result_def blank_result_def eval_nat_numeral)
  from c7 r have l: "list_all (res_conserved make_scenario3) (rr_res s)" by blast
  have c8: "\<exists>s. rr_iterate 64 60 (rr_init make_scenario3) = Inr s
          \<and> map (\<lambda>r. (rname r, CPU r)) (rr_res s) = [(''A'', 5), (''B'', 5), (''C'', 5)]
          \<and> list_all (res_conserved make_scenario3) (rr_res s)"
    by (rule exI [of _ s]) (rule conjI [OF r conjI [OF v l]])
  show ?thesis
    by (rule conjI [OF h conjI [OF q conjI [OF c1 conjI [OF c2 conjI [OF c3 conjI [OF c4
          conjI [OF c5 conjI [OF c6 c8]]]]]]]])
qed

section \<open>One record per process under FIFO, SJF and MLFQ\<close>

text \<open>
  The three policies other than Round-Robin are total functions of the model (their loops
  were proved terminating above, for every input), and each emits exactly one record per
  process: FIFO in definition order, SJF and MLFQ in some order.
\<close>

lemma name_clone_processes: "map name (clone_processes orig) = map name orig"
  by (simp add: clone_processes_def)

lemma fifo_while_name: "fifo_while p t = (p', t') \<Longrightarrow> name p' = name p"
proof (induction p t rule: fifo_while.induct)
  case (1 p t)
  show ?case
  proof (cases "is_done p")
    case True
    with "1.prems" show ?thesis by (simp add: fifo_while.simps)
  next
    case False
    obtain p2 taken io_dur where e: "eat_cpu p (remaining p) = (p2, taken, io_dur)"
      by (cases "eat_cpu p (remaining p)") auto
    from "1.prems" False e
    have w: "fifo_while p2 (if 0 \<le> io_dur then t + taken + io_dur else t + taken) = (p', t')"
      by (subst (asm) fifo_while.simps) simp
    from "1.IH" [OF False e [symmetric] refl w] eat_cpu_frame [OF e] show ?thesis by simp
  qed
qed

lemma fifo_for_names: "map rname (fifo_for ps t res) = map rname res @ map name ps"
proof (induction ps arbitrary: t res)
  case Nil
  show ?case by simp
next
  case (Cons p ps)
  let ?p1 = "if first_run_time p < 0 then p\<lparr>first_run_time := t\<rparr> else p"
  obtain p2 t2 where w: "fifo_while ?p1 t = (p2, t2)"
    by (cases "fifo_while ?p1 t") auto
  from fifo_while_name [OF w] have n: "name p2 = name p" by (simp split: if_splits)
  show ?case
    using w n by (simp add: Let_def Cons.IH store_result_def split del: if_split)
qed

lemma run_fifo_names: "map rname (run_fifo orig) = map name orig"
  by (simp add: run_fifo_def fifo_for_names clone_processes_def comp_def)

lemma run_sjf_names:
  assumes "mset (qsort cmp_total_cpu (clone_processes orig)) = mset (clone_processes orig)"
  shows "mset (map rname (run_sjf qsort orig)) = mset (map name orig)"
proof -
  have "mset (map rname (run_sjf qsort orig))
        = image_mset name (mset (qsort cmp_total_cpu (clone_processes orig)))"
    by (simp add: run_sjf_def sjf_for_fifo_for fifo_for_names)
  also have "\<dots> = image_mset name (mset (clone_processes orig))"
    by (simp add: assms)
  also have "\<dots> = mset (map name (clone_processes orig))"
    by simp
  also have "\<dots> = mset (map name orig)"
    by (simp only: name_clone_processes)
  finally show ?thesis .
qed

lemma sum_list_map_update:
  fixes f :: "'a \<Rightarrow> 'b::comm_monoid_add"
  shows "k < length qs \<Longrightarrow> sum_list (map f (qs[k := q])) + f (qs ! k) = sum_list (map f qs) + f q"
  by (induction qs arbitrary: k) (auto simp: nth_Cons ac_simps split: nat.splits)

lemma mlfq_body_names:
  assumes len: "length (queues s) = LEVELS" and fn: "first_nonempty (queues s) 0 = Some qidx"
  shows "length (queues (mlfq_body s qidx)) = LEVELS
       \<and> mset (map rname (mlfq_res (mlfq_body s qidx))) + queued_names (queues (mlfq_body s qidx))
           = mset (map rname (mlfq_res s)) + queued_names (queues s)"
proof -
  from first_nonempty_Some [OF fn] len
  have k: "qidx < length (queues s)" and ne: "queues s ! qidx \<noteq> []" and k3: "qidx < LEVELS"
    by simp_all
  let ?q = "queues s ! qidx"
  let ?p1 = "if first_run_time (hd ?q) < 0 then (hd ?q)\<lparr>first_run_time := mlfq_t s\<rparr> else hd ?q"
  let ?qs = "(queues s)[qidx := tl ?q]"
  obtain p2 taken io_dur where e: "eat_cpu ?p1 QUANTUM = (p2, taken, io_dur)"
    by (cases "eat_cpu ?p1 QUANTUM") auto
  have n: "name p2 = name (hd ?q)"
    using eat_cpu_frame [OF e] by (simp split: if_splits)
  have "mset (map name ?q) = add_mset (name (hd ?q)) (mset (map name (tl ?q)))"
    using ne by (cases ?q) simp_all
  with sum_list_map_update [OF k, of "\<lambda>q. mset (map name q)" "tl ?q"]
  have w: "add_mset (name p2) (queued_names ?qs) = queued_names (queues s)"
    by (simp add: queued_names_def n)
  note eq = mlfq_body_eq [OF e]
  show ?thesis
  proof (cases "is_done p2")
    case True
    with eq w len show ?thesis by (simp add: store_result_def)
  next
    case False
    let ?j = "new_q qidx taken"
    from k3 new_q_bounds [of qidx taken] len have j: "?j < length ?qs"
      by (simp add: LEVELS_def)
    from sum_list_map_update [OF j, of "\<lambda>q. mset (map name q)" "?qs ! ?j @ [p2]"]
    have "queued_names (?qs[?j := ?qs ! ?j @ [p2]]) = add_mset (name p2) (queued_names ?qs)"
      by (simp add: queued_names_def)
    with False eq w len show ?thesis by simp
  qed
qed

lemma queued_names_empty: "(\<forall>q \<in> set qs. q = []) \<Longrightarrow> queued_names qs = {#}"
  unfolding queued_names_def by (induction qs) simp_all

lemma mlfq_while_names:
  "length (queues s) = LEVELS \<Longrightarrow>
     mset (map rname (mlfq_res (mlfq_while s)))
       = mset (map rname (mlfq_res s)) + queued_names (queues s)"
proof (induction s rule: mlfq_while.induct)
  case (1 s)
  show ?case
  proof (cases "first_nonempty (queues s) 0")
    case None
    then have "\<forall>q \<in> set (queues s). q = []" by (simp add: first_nonempty_None)
    then have "queued_names (queues s) = {#}" by (rule queued_names_empty)
    with None show ?thesis by (simp add: mlfq_while.simps)
  next
    case (Some qidx)
    from mlfq_body_names [OF "1.prems" Some] "1.IH" [OF Some] Some show ?thesis
      by (subst mlfq_while.simps) simp
  qed
qed

lemma run_mlfq_names: "mset (map rname (run_mlfq orig)) = mset (map name orig)"
proof -
  have "length (queues (mlfq_init orig)) = LEVELS"
    by (simp add: mlfq_init_simps LEVELS_def)
  from mlfq_while_names [OF this]
  have "mset (map rname (run_mlfq orig)) = mset (map name (clone_processes orig))"
    by (simp add: run_mlfq_def mlfq_init_simps queued_names_def)
  then show ?thesis by (simp only: name_clone_processes)
qed

section \<open>SJF order (claim C2)\<close>

text \<open>
  Claim C2. With the stable sort \<open>stable_qsort\<close> in the place of the library's
  \<^verbatim>\<open>qsort\<close>: the cloned array is sorted once, and the processes are then run to
  completion in the sorted order as \<open>run_fifo\<close> runs them, by \<open>fifo_for\<close> from clock 0.
  The sorted array is the stable sort of the cloned array by \<open>total_cpu_needed\<close>: it is
  a rearrangement of the cloned array, ascending by \<open>total_cpu_needed\<close>, and for every
  demand \<open>k\<close> the processes of demand \<open>k\<close> are in it in the order they have in the
  cloned array, which is their definition order. The demands and the names of the cloned
  array are those of the definitions, and the records come out in the sorted order.
\<close>

theorem run_sjf_stable_order:
  "run_sjf stable_qsort orig = fifo_for (stable_qsort cmp_total_cpu (clone_processes orig)) 0 []
   \<and> stable_qsort cmp_total_cpu (clone_processes orig)
       = sort_key total_cpu_needed (clone_processes orig)
   \<and> mset (stable_qsort cmp_total_cpu (clone_processes orig)) = mset (clone_processes orig)
   \<and> sorted (map total_cpu_needed (stable_qsort cmp_total_cpu (clone_processes orig)))
   \<and> (\<forall>k. filter (\<lambda>p. total_cpu_needed p = k) (stable_qsort cmp_total_cpu (clone_processes orig))
            = filter (\<lambda>p. total_cpu_needed p = k) (clone_processes orig))
   \<and> map total_cpu_needed (clone_processes orig) = map total_cpu_needed orig
   \<and> map name (clone_processes orig) = map name orig
   \<and> map rname (run_sjf stable_qsort orig)
       = map name (stable_qsort cmp_total_cpu (clone_processes orig))"
proof -
  let ?xs = "clone_processes orig"
  have a: "run_sjf stable_qsort orig = fifo_for (stable_qsort cmp_total_cpu ?xs) 0 []"
    by (simp add: run_sjf_def sjf_for_fifo_for)
  have b: "stable_qsort cmp_total_cpu ?xs = sort_key total_cpu_needed ?xs"
    by (rule stable_qsort_sort_key)
  have c: "mset (stable_qsort cmp_total_cpu ?xs) = mset ?xs"
    by (rule mset_stable_qsort)
  have d: "sorted (map total_cpu_needed (stable_qsort cmp_total_cpu ?xs))"
    unfolding b by simp
  have e: "\<forall>k. filter (\<lambda>p. total_cpu_needed p = k) (stable_qsort cmp_total_cpu ?xs)
            = filter (\<lambda>p. total_cpu_needed p = k) ?xs"
    unfolding b by (simp add: sort_key_stable)
  have f: "map total_cpu_needed ?xs = map total_cpu_needed orig"
    by (rule total_clone_processes)
  have g: "map name ?xs = map name orig"
    by (rule name_clone_processes)
  have h: "map rname (run_sjf stable_qsort orig) = map name (stable_qsort cmp_total_cpu ?xs)"
    unfolding a by (simp add: fifo_for_names)
  show ?thesis
    by (rule conjI [OF a conjI [OF b conjI [OF c conjI [OF d conjI [OF e conjI [OF f conjI [OF g h]]]]]]])
qed

text \<open>
  The order of the records on the four built-in scenarios. In scenario 3 and in
  scenario 4 the three demands are equal, and A, B and C run in their definition order.
\<close>

lemma run_sjf_builtin_orders:
  "map rname (run_sjf stable_qsort make_scenario1) = [''A'', ''B'', ''C'']"
  "map rname (run_sjf stable_qsort make_scenario2) = [''D'', ''E'', ''C'', ''A'', ''B'', ''F'']"
  "map rname (run_sjf stable_qsort make_scenario3) = [''A'', ''B'', ''C'']"
  "map rname (run_sjf stable_qsort make_scenario4) = [''A'', ''B'', ''C'']"
  unfolding run_sjf_def sjf_for_fifo_for fifo_for_names
  by (simp_all add: stable_qsort_def cmp_total_cpu_def
      clone_processes_def new_process_def make_scenario1_def make_scenario2_def
      make_scenario3_def make_scenario4_def)

end
